theory Spec2Isabelle
  imports Main "HOL-Library.Word"
begin

unbundle bit_operations_syntax

section \<open>Machine integers, undefined behaviour and exceptions\<close>

text \<open>
  The simulator of \<^verbatim>\<open>cache.cpp\<close> computes on \<^verbatim>\<open>uint64_t\<close>: addition and subtraction
  wrap around modulo \<open>2 ^ 64\<close>, and the literals \<^verbatim>\<open>1UL\<close>, \<^verbatim>\<open>2UL\<close> are 64 bits wide (as
  on every platform where \<^verbatim>\<open>unsigned long\<close> is \<^verbatim>\<open>uint64_t\<close>).  A shift of a 64-bit value by 64 or more positions has no
  defined result in C++; the model returns \<open>UndefinedBehaviour\<close> there instead of picking
  one.  \<^verbatim>\<open>std::vector::at\<close> out of range is \<open>OutOfRange\<close>, and a \<^verbatim>\<open>throw\<close> of a string
  literal is \<open>Thrown\<close>.
\<close>

type_synonym u64 = "64 word"

datatype error = UndefinedBehaviour | OutOfRange | Thrown string

definition bindE :: "error + 'a \<Rightarrow> ('a \<Rightarrow> error + 'b) \<Rightarrow> error + 'b" where
  "bindE m f = (case m of Inl e \<Rightarrow> Inl e | Inr x \<Rightarrow> f x)"

text \<open>\<^verbatim>\<open>x << n\<close> and \<^verbatim>\<open>x >> n\<close> on \<^verbatim>\<open>uint64_t\<close>.\<close>

definition shl :: "u64 \<Rightarrow> u64 \<Rightarrow> error + u64" where
  "shl x n = (if n < 64 then Inr (push_bit (unat n) x) else Inl UndefinedBehaviour)"

definition shr :: "u64 \<Rightarrow> u64 \<Rightarrow> error + u64" where
  "shr x n = (if n < 64 then Inr (drop_bit (unat n) x) else Inl UndefinedBehaviour)"

text \<open>
  \<^verbatim>\<open>clog2(num) = static_cast<uint64_t>(std::ceil(std::log2(num)))\<close>.  The source goes
  through \<^verbatim>\<open>double\<close>; the model computes the ceiling of the binary logarithm on the
  naturals, which is what the floating-point expression yields for every block count
  a victim cache is configured with.  The two differ only for arguments beyond \<open>2 ^ 48\<close>,
  where a \<^verbatim>\<open>double\<close> no longer separates the logarithm of an integer next to a power
  of two from that of the power: for \<open>2 ^ 49 + 1\<close> the source yields 49 and the model 50,
  for \<open>2 ^ 63 + 1\<close> the source yields 63 and the model 64, a shift count that \<open>shl\<close>
  refuses.  No conclusion below depends on the value of \<open>clog2\<close> at such an argument.
  \<^verbatim>\<open>log2(0)\<close> is minus infinity, whose conversion to \<^verbatim>\<open>uint64_t\<close> is undefined.
\<close>

fun ceil_log2 :: "nat \<Rightarrow> nat" where
  "ceil_log2 n = (if n \<le> 1 then 0 else Suc (ceil_log2 ((n + 1) div 2)))"

definition clog2 :: "u64 \<Rightarrow> error + u64" where
  "clog2 num = (if num = 0 then Inl UndefinedBehaviour else Inr (of_nat (ceil_log2 (unat num))))"

section \<open>CacheEntry\<close>

text \<open>
  The fields of \<^verbatim>\<open>class CacheEntry\<close>; the geometry members \<^verbatim>\<open>c\<close>, \<^verbatim>\<open>b\<close>, \<^verbatim>\<open>s\<close> are
  \<open>entC\<close>, \<open>entB\<close>, \<open>entS\<close>.
\<close>

record CacheEntry =
  addr :: u64
  dirty :: bool
  entC :: u64
  entB :: u64
  entS :: u64
  blank :: bool
  prefetched :: bool

definition ADDR_WIDTH :: u64 where
  "ADDR_WIDTH = 64"

text \<open>
  The default constructor \<^verbatim>\<open>CacheEntry() : blank(true)\<close>.  It leaves \<^verbatim>\<open>addr\<close>, \<^verbatim>\<open>dirty\<close>,
  \<^verbatim>\<open>c\<close>, \<^verbatim>\<open>b\<close> and \<^verbatim>\<open>s\<close> uninitialised; the model fills them with zeros, and nothing
  proved below reads them.
\<close>

definition CacheEntry_blank :: CacheEntry where
  "CacheEntry_blank =
     \<lparr>addr = 0, dirty = False, entC = 0, entB = 0, entS = 0, blank = True, prefetched = False\<rparr>"

text \<open>The constructor \<^verbatim>\<open>CacheEntry(addr_i, dirty_i, c_i, b_i, s_i)\<close>.\<close>

definition CacheEntry_new :: "u64 \<Rightarrow> bool \<Rightarrow> u64 \<Rightarrow> u64 \<Rightarrow> u64 \<Rightarrow> CacheEntry" where
  "CacheEntry_new addr_i dirty_i c_i b_i s_i =
     \<lparr>addr = addr_i, dirty = dirty_i, entC = c_i, entB = b_i, entS = s_i,
      blank = False, prefetched = False\<rparr>"

text \<open>
  The copy constructor assigns \<^verbatim>\<open>addr\<close>, \<^verbatim>\<open>dirty\<close>, \<^verbatim>\<open>c\<close>, \<^verbatim>\<open>b\<close>, \<^verbatim>\<open>s\<close> in its body and
  names neither \<^verbatim>\<open>blank\<close> nor \<^verbatim>\<open>prefetched\<close>, so both take their default member
  initialisers (\<^verbatim>\<open>false\<close>).
\<close>

definition CacheEntry_copy :: "CacheEntry \<Rightarrow> CacheEntry" where
  "CacheEntry_copy alt =
     \<lparr>addr = addr alt, dirty = dirty alt, entC = entC alt, entB = entB alt, entS = entS alt,
      blank = False, prefetched = False\<rparr>"

definition tagSize :: "CacheEntry \<Rightarrow> u64" where
  "tagSize e = ADDR_WIDTH - entC e + entS e"

definition byteOffsetSize :: "CacheEntry \<Rightarrow> u64" where
  "byteOffsetSize e = entB e"

definition indexSize :: "CacheEntry \<Rightarrow> u64" where
  "indexSize e = entC e - entS e - entB e"

text \<open>\<^verbatim>\<open>(val >> shiftAmount) & ((2UL << bitCount) - 1UL)\<close>\<close>

definition shiftAndMask :: "u64 \<Rightarrow> u64 \<Rightarrow> u64 \<Rightarrow> error + u64" where
  "shiftAndMask val bitCount shiftAmount =
     bindE (shr val shiftAmount) (\<lambda>shifted.
     bindE (shl 2 bitCount) (\<lambda>m.
     Inr (shifted AND (m - 1))))"

definition setDirty :: "CacheEntry \<Rightarrow> bool \<Rightarrow> CacheEntry" where
  "setDirty e dirty_i = e\<lparr>dirty := dirty_i\<rparr>"

definition setPrefetched :: "CacheEntry \<Rightarrow> bool \<Rightarrow> CacheEntry" where
  "setPrefetched e prefetched_i = e\<lparr>prefetched := prefetched_i\<rparr>"

text \<open>
  \<^verbatim>\<open>blockAddressMask = ((1UL << (ADDR_WIDTH - b)) - 1UL) << b;
  addr &= ~blockAddressMask; addr |= blockAddress_i << b;\<close>
\<close>

definition setBlockAddress :: "CacheEntry \<Rightarrow> u64 \<Rightarrow> error + CacheEntry" where
  "setBlockAddress e blockAddress_i =
     bindE (shl 1 (ADDR_WIDTH - entB e)) (\<lambda>t.
     bindE (shl (t - 1) (entB e)) (\<lambda>blockAddressMask.
     bindE (shl blockAddress_i (entB e)) (\<lambda>ins.
     Inr (e\<lparr>addr := (addr e AND NOT blockAddressMask) OR ins\<rparr>))))"

definition getTag :: "CacheEntry \<Rightarrow> error + u64" where
  "getTag e = shiftAndMask (addr e) (tagSize e) (indexSize e + byteOffsetSize e)"

definition getIndex :: "CacheEntry \<Rightarrow> error + u64" where
  "getIndex e = shiftAndMask (addr e) (indexSize e) (byteOffsetSize e)"

definition getByteOffset :: "CacheEntry \<Rightarrow> error + u64" where
  "getByteOffset e = shiftAndMask (addr e) (byteOffsetSize e) 0"

definition getBlockAddress :: "CacheEntry \<Rightarrow> error + u64" where
  "getBlockAddress e = shiftAndMask (addr e) (indexSize e + tagSize e) (byteOffsetSize e)"

text \<open>
  The recomposition of an address from its three fields,
  \<^verbatim>\<open>(tag << (index_bits + b)) | (index << b) | byte_offset\<close>, for the entry's geometry.
\<close>

definition compose :: "CacheEntry \<Rightarrow> u64 \<Rightarrow> u64 \<Rightarrow> u64 \<Rightarrow> error + u64" where
  "compose e tag idx byte_offset =
     bindE (shl tag (indexSize e + byteOffsetSize e)) (\<lambda>hi.
     bindE (shl idx (byteOffsetSize e)) (\<lambda>mid.
     Inr (hi OR mid OR byte_offset)))"

section \<open>CacheSet, LruSet and VictimSet\<close>

text \<open>
  \<^verbatim>\<open>class CacheSet\<close>: the member \<^verbatim>\<open>std::list<CacheEntry> set\<close> is \<open>entries\<close>, its front
  the head of the list; \<^verbatim>\<open>c\<close>, \<^verbatim>\<open>b\<close>, \<^verbatim>\<open>s\<close> are \<open>setC\<close>, \<open>setB\<close>, \<open>setS\<close>.
  \<^verbatim>\<open>LruSet\<close> adds no member; \<^verbatim>\<open>VictimSet\<close> adds \<^verbatim>\<open>v\<close>, here \<open>setV\<close>.
\<close>

record CacheSet =
  ways :: u64
  setC :: u64
  setB :: u64
  setS :: u64
  entries :: "CacheEntry list"

type_synonym LruSet = CacheSet

record VictimSet = CacheSet +
  setV :: u64

text \<open>The constructor \<^verbatim>\<open>CacheSet(c_i, b_i, s_i) : ways(1UL << s_i), c(c_i), b(b_i), s(s_i)\<close>.\<close>

definition CacheSet_new :: "u64 \<Rightarrow> u64 \<Rightarrow> u64 \<Rightarrow> error + CacheSet" where
  "CacheSet_new c_i b_i s_i =
     bindE (shl 1 s_i) (\<lambda>w.
     Inr \<lparr>ways = w, setC = c_i, setB = b_i, setS = s_i, entries = []\<rparr>)"

definition CacheSet_init ::
  "'a CacheSet_scheme \<Rightarrow> u64 \<Rightarrow> u64 \<Rightarrow> u64 \<Rightarrow> error + 'a CacheSet_scheme" where
  "CacheSet_init st c_i b_i s_i =
     bindE (shl 1 s_i) (\<lambda>w.
     Inr (st\<lparr>ways := w, setC := c_i, setB := b_i, setS := s_i\<rparr>))"

definition getWays :: "'a CacheSet_scheme \<Rightarrow> u64" where
  "getWays st = ways st"

definition getSize :: "'a CacheSet_scheme \<Rightarrow> nat" where
  "getSize st = length (entries st)"

text \<open>
  \<^verbatim>\<open>std::find(set.begin(), set.end(), tag)\<close> compares with
  \<^verbatim>\<open>CacheEntry::operator==(const uint64_t&)\<close>, that is \<^verbatim>\<open>getTag() == compareTag\<close>.  The
  result is the position of the first match; the length of the list stands for
  \<^verbatim>\<open>set.end()\<close>.
\<close>

fun find_tag :: "CacheEntry list \<Rightarrow> u64 \<Rightarrow> error + nat" where
  "find_tag [] tag = Inr 0"
| "find_tag (e # es) tag =
     bindE (getTag e) (\<lambda>t.
     if t = tag then Inr 0 else bindE (find_tag es tag) (\<lambda>i. Inr (Suc i)))"

text \<open>
  \<^verbatim>\<open>std::list::remove(value)\<close> erases every element that compares equal to the value
  with \<^verbatim>\<open>CacheEntry::operator==(const CacheEntry&)\<close>, that is \<^verbatim>\<open>getTag() == rhs.getTag()\<close>.
\<close>

fun list_remove :: "CacheEntry list \<Rightarrow> CacheEntry \<Rightarrow> error + CacheEntry list" where
  "list_remove [] val = Inr []"
| "list_remove (e # es) val =
     bindE (getTag e) (\<lambda>t.
     bindE (getTag val) (\<lambda>tv.
     bindE (list_remove es val) (\<lambda>r.
     Inr (if t = tv then r else e # r))))"

text \<open>
  Every \<^verbatim>\<open>CacheEntry\<close> that is stored, handed over by value or returned from an lvalue
  goes through the copy constructor; \<^verbatim>\<open>return CacheEntry();\<close> constructs the blank
  entry in place (copy elision).
\<close>

definition retrieve ::
  "'a CacheSet_scheme \<Rightarrow> u64 \<Rightarrow> error + (CacheEntry \<times> 'a CacheSet_scheme)" where
  "retrieve st tag =
     bindE (find_tag (entries st) tag) (\<lambda>i.
     if i = length (entries st) then Inr (CacheEntry_blank, st)
     else
       let found = CacheEntry_copy (entries st ! i) in
       bindE (list_remove (entries st) (entries st ! i)) (\<lambda>es.
       Inr (found, st\<lparr>entries := es\<rparr>)))"

definition seek :: "'a CacheSet_scheme \<Rightarrow> u64 \<Rightarrow> error + CacheEntry" where
  "seek st tag =
     bindE (find_tag (entries st) tag) (\<lambda>i.
     if i = length (entries st) then Inr CacheEntry_blank
     else Inr (CacheEntry_copy (entries st ! i)))"

definition contains :: "'a CacheSet_scheme \<Rightarrow> u64 \<Rightarrow> error + bool" where
  "contains st tag =
     bindE (find_tag (entries st) tag) (\<lambda>i.
     if i = length (entries st) then Inr False else Inr True)"

text \<open>
  \<^verbatim>\<open>LruSet::insertLru(CacheEntry entry)\<close>: the parameter is a copy of the caller's entry,
  \<^verbatim>\<open>push_back\<close> copies it again.  \<^verbatim>\<open>set.back()\<close> on an empty list is undefined.
\<close>

definition insertLru :: "LruSet \<Rightarrow> CacheEntry \<Rightarrow> error + (CacheEntry \<times> LruSet)" where
  "insertLru st arg =
     (let entry = CacheEntry_copy arg in
      if length (entries st) < unat (ways st)
      then Inr (CacheEntry_blank, st\<lparr>entries := entries st @ [CacheEntry_copy entry]\<rparr>)
      else if entries st = [] then Inl UndefinedBehaviour
      else
        let lru = CacheEntry_copy (last (entries st)) in
        Inr (lru, st\<lparr>entries := butlast (entries st) @ [CacheEntry_copy entry]\<rparr>))"

definition inserMru :: "LruSet \<Rightarrow> CacheEntry \<Rightarrow> error + (CacheEntry \<times> LruSet)" where
  "inserMru st arg =
     (let entry = CacheEntry_copy arg in
      if length (entries st) < unat (ways st)
      then Inr (CacheEntry_blank, st\<lparr>entries := CacheEntry_copy entry # entries st\<rparr>)
      else if entries st = [] then Inl UndefinedBehaviour
      else
        let lru = CacheEntry_copy (last (entries st)) in
        Inr (lru, st\<lparr>entries := CacheEntry_copy entry # butlast (entries st)\<rparr>))"

definition read :: "LruSet \<Rightarrow> u64 \<Rightarrow> error + (CacheEntry \<times> LruSet)" where
  "read st tag =
     bindE (find_tag (entries st) tag) (\<lambda>i.
     if i = length (entries st) then Inr (CacheEntry_blank, st)
     else
       let newMru = CacheEntry_copy (entries st ! i) in
       bindE (list_remove (entries st) newMru) (\<lambda>es.
       Inr (newMru, st\<lparr>entries := CacheEntry_copy newMru # es\<rparr>)))"

definition writeBack :: "LruSet \<Rightarrow> u64 \<Rightarrow> error + (CacheEntry \<times> LruSet)" where
  "writeBack st tag =
     bindE (find_tag (entries st) tag) (\<lambda>i.
     if i = length (entries st) then Inr (CacheEntry_blank, st)
     else
       let marked = (entries st)[i := setDirty (entries st ! i) True];
           newMru = CacheEntry_copy (marked ! i) in
       bindE (list_remove marked newMru) (\<lambda>es.
       Inr (newMru, st\<lparr>entries := CacheEntry_copy newMru # es\<rparr>)))"

text \<open>
  \<^verbatim>\<open>VictimSet(v_i, b_i) : CacheSet(clog2(v_i) + b_i, b_i, clog2(v_i)), v(v_i)\<close> and
  \<^verbatim>\<open>VictimSet::init\<close>, which re-parameterises an existing set.
\<close>

definition VictimSet_new :: "u64 \<Rightarrow> u64 \<Rightarrow> error + VictimSet" where
  "VictimSet_new v_i b_i =
     bindE (clog2 v_i) (\<lambda>lg.
     bindE (shl 1 lg) (\<lambda>w.
     Inr \<lparr>ways = w, setC = lg + b_i, setB = b_i, setS = lg, entries = [], setV = v_i\<rparr>))"

definition VictimSet_init :: "VictimSet \<Rightarrow> u64 \<Rightarrow> u64 \<Rightarrow> error + VictimSet" where
  "VictimSet_init vs v_i b_i =
     bindE (clog2 v_i) (\<lambda>lg.
     bindE (CacheSet_init vs (lg + b_i) b_i lg) (\<lambda>vs'.
     Inr (vs'\<lparr>setV := v_i\<rparr>)))"

text \<open>\<^verbatim>\<open>VictimSet::insert(CacheEntry entry)\<close>\<close>

definition VictimSet_insert :: "VictimSet \<Rightarrow> CacheEntry \<Rightarrow> error + (CacheEntry \<times> VictimSet)" where
  "VictimSet_insert vs arg =
     (let entry = CacheEntry_copy arg in
      if length (entries vs) < unat (ways vs)
      then Inr (CacheEntry_blank, vs\<lparr>entries := CacheEntry_copy entry # entries vs\<rparr>)
      else if entries vs = [] then Inl UndefinedBehaviour
      else
        let fifo = CacheEntry_copy (last (entries vs)) in
        Inr (fifo, vs\<lparr>entries := CacheEntry_copy entry # butlast (entries vs)\<rparr>))"

section \<open>Prefetcher\<close>

text \<open>
  \<^verbatim>\<open>class Prefetcher\<close>: \<^verbatim>\<open>k\<close>, \<^verbatim>\<open>c\<close>, \<^verbatim>\<open>b\<close>, \<^verbatim>\<open>s\<close> are \<open>prefK\<close>, \<open>prefC\<close>, \<open>prefB\<close>, \<open>prefS\<close>.
  The member \<^verbatim>\<open>std::vector<LruSet>& prefCache\<close> is a reference to the cache the
  prefetcher fills; the model passes that vector in and returns it updated.
\<close>

record Prefetcher =
  prefK :: u64
  prefC :: u64
  prefB :: u64
  prefS :: u64
  evictions :: "CacheEntry list"

definition Prefetcher_init :: "Prefetcher \<Rightarrow> u64 \<Rightarrow> u64 \<Rightarrow> u64 \<Rightarrow> u64 \<Rightarrow> Prefetcher" where
  "Prefetcher_init pf k_i c_i b_i s_i = pf\<lparr>prefK := k_i, prefC := c_i, prefB := b_i, prefS := s_i\<rparr>"

text \<open>
  The body of \<^verbatim>\<open>for (auto i=0UL; i<k; ++i)\<close> in \<^verbatim>\<open>Prefetcher::prefetch\<close>; the first argument
  counts the iterations still to run.  \<^verbatim>\<open>tmp_blockAddress\<close> and \<^verbatim>\<open>tmp_entry\<close> live across
  the iterations.
\<close>

fun prefetch_loop ::
  "nat \<Rightarrow> u64 \<Rightarrow> CacheEntry \<Rightarrow> LruSet list \<Rightarrow> CacheEntry list
     \<Rightarrow> error + (LruSet list \<times> CacheEntry list)" where
  "prefetch_loop 0 tmp_blockAddress tmp_entry prefCache evs = Inr (prefCache, evs)"
| "prefetch_loop (Suc n) tmp_blockAddress tmp_entry prefCache evs =
     (let blockAddress = tmp_blockAddress + 1 in
      bindE (setBlockAddress tmp_entry blockAddress) (\<lambda>entry.
      bindE (getIndex entry) (\<lambda>idx.
      if length prefCache \<le> unat idx then Inl OutOfRange
      else
        bindE (getTag entry) (\<lambda>tag.
        bindE (contains (prefCache ! unat idx) tag) (\<lambda>present.
        if present then prefetch_loop n blockAddress entry prefCache evs
        else
          bindE (insertLru (prefCache ! unat idx) entry) (\<lambda>(evicted, st).
          prefetch_loop n blockAddress entry (prefCache[unat idx := st])
            (if blank evicted then evs else evs @ [CacheEntry_copy evicted])))))))"

definition prefetch ::
  "Prefetcher \<Rightarrow> LruSet list \<Rightarrow> CacheEntry \<Rightarrow> error + (Prefetcher \<times> LruSet list)" where
  "prefetch pf prefCache startEntry =
     (let tmp_entry = setPrefetched (setDirty (CacheEntry_copy startEntry) False) True in
      bindE (getBlockAddress startEntry) (\<lambda>tmp_blockAddress.
      bindE (prefetch_loop (unat (prefK pf)) tmp_blockAddress tmp_entry prefCache [])
        (\<lambda>(cache, evs).
      Inr (pf\<lparr>evictions := evs\<rparr>, cache))))"

text \<open>
  \<^verbatim>\<open>CacheEntry eviction = evictions.front(); evictions.pop_front(); return eviction;\<close>
  There is no test for an empty buffer, and \<^verbatim>\<open>front()\<close> of an empty \<^verbatim>\<open>std::list\<close> is
  undefined.
\<close>

definition popEviction :: "Prefetcher \<Rightarrow> error + (CacheEntry \<times> Prefetcher)" where
  "popEviction pf =
     (case evictions pf of
        [] \<Rightarrow> Inl UndefinedBehaviour
      | e # es \<Rightarrow> Inr (CacheEntry_copy e, pf\<lparr>evictions := es\<rparr>))"

definition checkEmpty :: "Prefetcher \<Rightarrow> bool" where
  "checkEmpty pf = (evictions pf = [])"

section \<open>The globals and cache_init\<close>

text \<open>
  Modelled from the spec: \<^verbatim>\<open>struct cache_config_t\<close> is declared in \<^verbatim>\<open>cache.hpp\<close>, which is
  not among the sources.  \<^verbatim>\<open>cache_init\<close> reads its members \<^verbatim>\<open>c\<close>, \<^verbatim>\<open>s\<close>, \<^verbatim>\<open>C\<close>, \<^verbatim>\<open>S\<close>,
  \<^verbatim>\<open>b\<close>, \<^verbatim>\<open>v\<close>, \<^verbatim>\<open>k\<close> into \<^verbatim>\<open>uint64_t\<close> globals; the spec calls them
  \<open>l1_c, l1_s, l2_c, l2_s, b, v, k\<close>, all non-negative integers.
\<close>

record cache_config_t =
  cfg_c :: u64
  cfg_s :: u64
  cfg_C :: u64
  cfg_S :: u64
  cfg_b :: u64
  cfg_v :: u64
  cfg_k :: u64

text \<open>The file-scope variables of \<^verbatim>\<open>cache.cpp\<close>.\<close>

record globals =
  L1_C :: u64
  L1_S :: u64
  L2_C :: u64
  L2_S :: u64
  B :: u64
  V :: u64
  K :: u64
  L1_NUM_SETS :: u64
  L2_NUM_SETS :: u64
  l1 :: "LruSet list"
  l2 :: "LruSet list"
  l2Prefetch :: Prefetcher
  vc :: VictimSet

text \<open>
  Objects of static storage duration are zero-initialised before their constructors
  run, and the default constructors used here assign nothing.
\<close>

definition globals_at_start :: globals where
  "globals_at_start =
     \<lparr>L1_C = 0, L1_S = 0, L2_C = 0, L2_S = 0, B = 0, V = 0, K = 0,
      L1_NUM_SETS = 0, L2_NUM_SETS = 0, l1 = [], l2 = [],
      l2Prefetch = \<lparr>prefK = 0, prefC = 0, prefB = 0, prefS = 0, evictions = []\<rparr>,
      vc = \<lparr>ways = 0, setC = 0, setB = 0, setS = 0, entries = [], setV = 0\<rparr>\<rparr>"

text \<open>
  \<^verbatim>\<open>for (auto i=0UL; i<n; ++i) { vec.push_back(LruSet(c, b, s)); }\<close>, the first argument
  counting the iterations still to run.
\<close>

fun push_sets :: "nat \<Rightarrow> u64 \<Rightarrow> u64 \<Rightarrow> u64 \<Rightarrow> LruSet list \<Rightarrow> error + LruSet list" where
  "push_sets 0 c_i b_i s_i vec = Inr vec"
| "push_sets (Suc n) c_i b_i s_i vec =
     bindE (CacheSet_new c_i b_i s_i) (\<lambda>st. push_sets n c_i b_i s_i (vec @ [st]))"

text \<open>
  The statements of \<^verbatim>\<open>cache_init\<close> up to, but not including, its final \<^verbatim>\<open>throw\<close>.  Both
  loops push into \<^verbatim>\<open>l1\<close>, as the source does.  \<^verbatim>\<open>reserve\<close> changes no observable state
  (memory is taken to be unbounded).
\<close>

definition cache_init_setup :: "cache_config_t \<Rightarrow> globals \<Rightarrow> error + globals" where
  "cache_init_setup conf g =
     (let g1 = g\<lparr>L1_C := cfg_c conf, L1_S := cfg_s conf, L2_C := cfg_C conf, L2_S := cfg_S conf,
                 B := cfg_b conf, V := cfg_v conf, K := cfg_k conf\<rparr> in
      bindE (shl 1 (L1_C g1 - L1_S g1 - B g1)) (\<lambda>n1.
      bindE (shl 1 (L2_C g1 - L2_S g1 - B g1)) (\<lambda>n2.
      let g2 = g1\<lparr>L1_NUM_SETS := n1, L2_NUM_SETS := n2\<rparr> in
      bindE (push_sets (unat (L1_NUM_SETS g2)) (L1_C g2) (B g2) (L1_S g2) (l1 g2)) (\<lambda>vec1.
      bindE (push_sets (unat (L2_NUM_SETS g2)) (L2_C g2) (B g2) (L2_S g2) vec1) (\<lambda>vec2.
      let g3 = g2\<lparr>l1 := vec2,
                  l2Prefetch := Prefetcher_init (l2Prefetch g2) (K g2) (L2_C g2) (B g2) (L2_S g2)\<rparr> in
      bindE (VictimSet_init (vc g3) (V g3) (B g3)) (\<lambda>vs.
      Inr (g3\<lparr>vc := vs\<rparr>)))))))"

text \<open>
  \<^verbatim>\<open>cache_init\<close> itself: the setup, then \<^verbatim>\<open>throw "done initializing!!!\n";\<close>.  The result
  pairs how the call ends with the globals it leaves behind (which mean nothing after
  undefined behaviour; the model keeps the globals it started from there).
\<close>

definition cache_init :: "cache_config_t \<Rightarrow> globals \<Rightarrow> (error + unit) \<times> globals" where
  "cache_init conf g =
     (case cache_init_setup conf g of
        Inl e \<Rightarrow> (Inl e, g)
      | Inr g' \<Rightarrow> (Inl (Thrown ''done initializing!!!\<newline>''), g'))"

text \<open>
  The geometric validity of a configuration, in the spec's words: \<open>l1_c \<ge> l1_s + b\<close>,
  \<open>l2_c \<ge> l2_s + b\<close>, and for \<open>v > 0\<close> the same check on the derived victim-cache
  geometry \<open>s = log2 v\<close>, \<open>c = log2 v + b\<close>.
\<close>

definition config_valid :: "cache_config_t \<Rightarrow> bool" where
  "config_valid conf =
     (unat (cfg_s conf) + unat (cfg_b conf) \<le> unat (cfg_c conf) \<and>
      unat (cfg_S conf) + unat (cfg_b conf) \<le> unat (cfg_C conf) \<and>
      (cfg_v conf = 0 \<or>
       ceil_log2 (unat (cfg_v conf)) + unat (cfg_b conf)
         \<le> ceil_log2 (unat (cfg_v conf)) + unat (cfg_b conf)))"

section \<open>Sequences of calls\<close>

text \<open>
  A caller of an \<^verbatim>\<open>LruSet\<close> or of the \<^verbatim>\<open>VictimSet\<close> issues member calls one after the
  other.  A sequence of calls is a list of the following requests; running it threads
  the set through the calls and stops at the first one that fails.
\<close>

datatype lru_op =
    InsertLru CacheEntry
  | InserMru CacheEntry
  | Read u64
  | WriteBack u64
  | Retrieve u64
  | Seek u64
  | Contains u64

fun lru_step :: "LruSet \<Rightarrow> lru_op \<Rightarrow> error + LruSet" where
  "lru_step st (InsertLru e) = bindE (insertLru st e) (\<lambda>(r, st'). Inr st')"
| "lru_step st (InserMru e) = bindE (inserMru st e) (\<lambda>(r, st'). Inr st')"
| "lru_step st (Read tag) = bindE (read st tag) (\<lambda>(r, st'). Inr st')"
| "lru_step st (WriteBack tag) = bindE (writeBack st tag) (\<lambda>(r, st'). Inr st')"
| "lru_step st (Retrieve tag) = bindE (retrieve st tag) (\<lambda>(r, st'). Inr st')"
| "lru_step st (Seek tag) = bindE (seek st tag) (\<lambda>r. Inr st)"
| "lru_step st (Contains tag) = bindE (contains st tag) (\<lambda>r. Inr st)"

fun lru_run :: "LruSet \<Rightarrow> lru_op list \<Rightarrow> error + LruSet" where
  "lru_run st [] = Inr st"
| "lru_run st (x # xs) = bindE (lru_step st x) (\<lambda>st'. lru_run st' xs)"

datatype victim_op =
    VInsert CacheEntry
  | VRetrieve u64
  | VSeek u64
  | VContains u64

fun victim_step :: "VictimSet \<Rightarrow> victim_op \<Rightarrow> error + VictimSet" where
  "victim_step vs (VInsert e) = bindE (VictimSet_insert vs e) (\<lambda>(r, vs'). Inr vs')"
| "victim_step vs (VRetrieve tag) = bindE (retrieve vs tag) (\<lambda>(r, vs'). Inr vs')"
| "victim_step vs (VSeek tag) = bindE (seek vs tag) (\<lambda>r. Inr vs)"
| "victim_step vs (VContains tag) = bindE (contains vs tag) (\<lambda>r. Inr vs)"

fun victim_run :: "VictimSet \<Rightarrow> victim_op list \<Rightarrow> error + VictimSet" where
  "victim_run vs [] = Inr vs"
| "victim_run vs (x # xs) = bindE (victim_step vs x) (\<lambda>vs'. victim_run vs' xs)"

subsection \<open>What every stored line satisfies\<close>

text \<open>
  The set holds no more lines than it has ways, it has at least one way, and every line
  in it came out of the copy constructor.
\<close>

definition stored_ok :: "'a CacheSet_scheme \<Rightarrow> bool" where
  "stored_ok st \<longleftrightarrow> length (entries st) \<le> unat (ways st) \<and> 0 < unat (ways st) \<and>
     (\<forall>e \<in> set (entries st). \<not> blank e \<and> \<not> prefetched e)"


subsection \<open>A configuration to run\<close>

text \<open>
  The first-level geometry of the spec's scenario (\<open>c = 10\<close>, \<open>b = 5\<close>, \<open>s = 1\<close>: 16 sets of
  2 ways), a second level of 32 sets of 4 ways, a victim cache of 3 blocks and a
  prefetch distance of 2.
\<close>

definition example_config :: cache_config_t where
  "example_config =
     \<lparr>cfg_c = 10, cfg_s = 1, cfg_C = 12, cfg_S = 2, cfg_b = 5, cfg_v = 3, cfg_k = 2\<rparr>"

section \<open>Least-recently-used replacement, by reference times\<close>




text \<open>
  What the specification calls least-recently-used replacement is written down
  independently of \<^verbatim>\<open>std::list\<close>: the members of a set are lines paired with the time of
  their last reference, the time being the number of calls made before.  This second
  definition follows the words of the specification, not the source; the position of a
  pair in the list plays no role in it.

    \<^item> \<open>least_recent\<close> and \<open>most_recent\<close> pick the pair with the least and the greatest time
      of a non-empty list;
    \<^item> \<open>ref_inserMru\<close> pairs the new line with the current time; on a full set it first
      removes, and returns, the member with the least time;
    \<^item> \<open>ref_read\<close> and \<open>ref_writeBack\<close> look for the members with the tag; on a hit the
      most recent of them is returned (marked dirty by \<open>ref_writeBack\<close>) and paired with
      the current time, and the members with that tag are removed; on a miss the set is
      unchanged and the blank line is returned.
\<close>

type_synonym stamped = "(nat \<times> CacheEntry) list"

definition least_recent :: "nat \<times> CacheEntry \<Rightarrow> stamped \<Rightarrow> nat \<times> CacheEntry" where
  "least_recent p ps = fold (\<lambda>q r. if fst q < fst r then q else r) ps p"











section \<open>The prefetcher, step by step\<close>

text \<open>
  A second description of \<^verbatim>\<open>Prefetcher::prefetch\<close>, to compare the loop with.  The
  \<open>i\<close>-th candidate line is written in closed form: its block address is the block
  address of the trigger line plus \<open>i\<close>, its byte offset and geometry are those of the
  trigger line, it is clean and marked as prefetched.
\<close>

definition candidate :: "CacheEntry \<Rightarrow> u64 \<Rightarrow> nat \<Rightarrow> CacheEntry" where
  "candidate startEntry blockAddress i =
     \<lparr>addr = push_bit (unat (entB startEntry)) (blockAddress + of_nat i)
             OR take_bit (unat (entB startEntry)) (addr startEntry),
      dirty = False, entC = entC startEntry, entB = entB startEntry, entS = entS startEntry,
      blank = False, prefetched = True\<rparr>"

text \<open>
  The candidates are handled in order.  One whose index is not a position of the vector
  ends the call with \<open>OutOfRange\<close>; one whose tag the selected set already contains is
  skipped; any other is given to \<^verbatim>\<open>insertLru\<close> of the selected set, which appends it
  at the tail (the LRU position), and a line evicted for it is appended to the buffer.
\<close>

fun prefetch_steps ::
  "CacheEntry list \<Rightarrow> LruSet list \<Rightarrow> CacheEntry list
     \<Rightarrow> error + (LruSet list \<times> CacheEntry list)" where
  "prefetch_steps [] cache evs = Inr (cache, evs)"
| "prefetch_steps (cand # cands) cache evs =
     bindE (getIndex cand) (\<lambda>idx.
     if length cache \<le> unat idx then Inl OutOfRange
     else
       bindE (getTag cand) (\<lambda>tag.
       bindE (contains (cache ! unat idx) tag) (\<lambda>present.
       if present then prefetch_steps cands cache evs
       else
         bindE (insertLru (cache ! unat idx) cand) (\<lambda>(evicted, st).
         prefetch_steps cands (cache[unat idx := st])
           (if blank evicted then evs else evs @ [CacheEntry_copy evicted])))))"

text \<open>The buffer starts empty, whatever it held before.\<close>

definition prefetch_spec ::
  "Prefetcher \<Rightarrow> LruSet list \<Rightarrow> CacheEntry \<Rightarrow> error + (Prefetcher \<times> LruSet list)" where
  "prefetch_spec pf cache startEntry =
     bindE (getBlockAddress startEntry) (\<lambda>blockAddress.
     bindE (prefetch_steps (map (candidate startEntry blockAddress) [1..<Suc (unat (prefK pf))])
              cache [])
       (\<lambda>(cache', evs).
     Inr (pf\<lparr>evictions := evs\<rparr>, cache')))"

text \<open>
  What a run of the steps leaves behind: the vector keeps its length, a set whose tags
  were distinct still has distinct tags, and a line that was not in the set before is
  neither dirty nor marked as prefetched.
\<close>

definition steps_post :: "LruSet list \<Rightarrow> LruSet list \<Rightarrow> bool" where
  "steps_post cache cache' \<longleftrightarrow>
     length cache' = length cache \<and>
     (\<forall>j < length cache.
        (distinct (map getTag (entries (cache ! j)))
           \<longrightarrow> distinct (map getTag (entries (cache' ! j)))) \<and>
        (\<forall>x \<in> set (entries (cache' ! j)).
           x \<in> set (entries (cache ! j)) \<or> (\<not> dirty x \<and> \<not> prefetched x)))"

section \<open>Basic facts\<close>

lemma bindE_simps [simp]:
  "bindE (Inl e) f = Inl e" "bindE (Inr x) f = f x"
  by (simp_all add: bindE_def)

lemma bindE_eq_Inr: "bindE m f = Inr y \<longleftrightarrow> (\<exists>x. m = Inr x \<and> f x = Inr y)"
  by (cases m) simp_all

lemma copy_fields [simp]:
  "addr (CacheEntry_copy e) = addr e" "dirty (CacheEntry_copy e) = dirty e"
  "entC (CacheEntry_copy e) = entC e" "entB (CacheEntry_copy e) = entB e"
  "entS (CacheEntry_copy e) = entS e" "blank (CacheEntry_copy e) = False"
  "prefetched (CacheEntry_copy e) = False"
  by (simp_all add: CacheEntry_copy_def)

lemma copy_idem [simp]: "CacheEntry_copy (CacheEntry_copy e) = CacheEntry_copy e"
  by (simp add: CacheEntry_copy_def)

lemma getTag_cong:
  "addr e = addr e' \<Longrightarrow> entC e = entC e' \<Longrightarrow> entB e = entB e' \<Longrightarrow> entS e = entS e' \<Longrightarrow>
   getTag e = getTag e'"
  by (simp add: getTag_def tagSize_def indexSize_def byteOffsetSize_def)

lemma getTag_copy [simp]: "getTag (CacheEntry_copy e) = getTag e"
  by (rule getTag_cong) simp_all

lemma getTag_setDirty [simp]: "getTag (setDirty e d) = getTag e"
  by (rule getTag_cong) (simp_all add: setDirty_def)

lemma find_tag_le: "find_tag es tag = Inr i \<Longrightarrow> i \<le> length es"
  by (induction es arbitrary: i) (auto simp: bindE_eq_Inr split: if_splits)


lemma find_tag_first:
  "find_tag es tag = Inr i \<Longrightarrow> j < i \<Longrightarrow> \<exists>t. getTag (es ! j) = Inr t \<and> t \<noteq> tag"
proof (induction es arbitrary: i j)
  case Nil then show ?case by simp
next
  case (Cons e es) then show ?case
    by (cases j) (auto simp: bindE_eq_Inr split: if_splits)
qed

lemma list_remove_subset: "list_remove es val = Inr r \<Longrightarrow> set r \<subseteq> set es"
  by (induction es arbitrary: r) (auto simp: bindE_eq_Inr split: if_splits)

lemma list_remove_length: "list_remove es val = Inr r \<Longrightarrow> length r \<le> length es"
  by (induction es arbitrary: r) (fastforce simp: bindE_eq_Inr split: if_splits)+

lemma list_remove_filter:
  "list_remove es val = Inr r \<Longrightarrow> r = filter (\<lambda>e. getTag e \<noteq> getTag val) es"
  by (induction es arbitrary: r) (auto simp: bindE_eq_Inr split: if_splits)

lemma list_remove_hit:
  assumes "list_remove es val = Inr r" "i < length es" "getTag (es ! i) = getTag val"
  shows "length r < length es"
proof -
  have "es ! i \<in> set es" using assms(2) by simp
  then have "length (filter (\<lambda>e. getTag e \<noteq> getTag val) es) < length es"
    using assms(3) by (intro length_filter_less [of "es ! i"]) auto
  then show ?thesis using list_remove_filter [OF assms(1)] by simp
qed

lemma insertLru_ok:
  "insertLru st e = Inr (r, st') \<Longrightarrow> stored_ok st \<Longrightarrow> stored_ok st' \<and> ways st' = ways st \<and> setS st' = setS st"
  unfolding insertLru_def stored_ok_def Let_def
  by (fastforce split: if_splits dest: in_set_butlastD)

lemma inserMru_ok:
  "inserMru st e = Inr (r, st') \<Longrightarrow> stored_ok st \<Longrightarrow> stored_ok st' \<and> ways st' = ways st \<and> setS st' = setS st"
  unfolding inserMru_def stored_ok_def Let_def
  by (fastforce split: if_splits dest: in_set_butlastD)

lemma VictimSet_insert_ok:
  "VictimSet_insert st e = Inr (r, st') \<Longrightarrow> stored_ok st \<Longrightarrow> stored_ok st' \<and> ways st' = ways st \<and> setS st' = setS st"
  unfolding VictimSet_insert_def stored_ok_def Let_def
  by (fastforce split: if_splits dest: in_set_butlastD)

lemma retrieve_ok:
  assumes "retrieve st tag = Inr (r, st')" "stored_ok st"
  shows "stored_ok st' \<and> ways st' = ways st \<and> setS st' = setS st"
proof -
  obtain i where i: "find_tag (entries st) tag = Inr i"
    using assms(1) by (auto simp: retrieve_def bindE_eq_Inr)
  show ?thesis
  proof (cases "i = length (entries st)")
    case True
    then show ?thesis using assms i by (simp add: retrieve_def)
  next
    case False
    obtain es where es: "list_remove (entries st) (entries st ! i) = Inr es"
      and st': "st' = st\<lparr>entries := es\<rparr>"
      using assms(1) i False by (auto simp: retrieve_def Let_def bindE_eq_Inr)
    have "length es \<le> length (entries st)" by (rule list_remove_length [OF es])
    moreover have "set es \<subseteq> set (entries st)" by (rule list_remove_subset [OF es])
    ultimately show ?thesis using assms(2) st' by (auto simp: stored_ok_def)
  qed
qed

lemma read_ok:
  assumes "read st tag = Inr (r, st')" "stored_ok st"
  shows "stored_ok st' \<and> ways st' = ways st \<and> setS st' = setS st"
proof -
  obtain i where i: "find_tag (entries st) tag = Inr i"
    using assms(1) by (auto simp: read_def bindE_eq_Inr)
  show ?thesis
  proof (cases "i = length (entries st)")
    case True
    then show ?thesis using assms i by (simp add: read_def)
  next
    case False
    then have lt: "i < length (entries st)" using find_tag_le [OF i] by simp
    obtain es where es: "list_remove (entries st) (CacheEntry_copy (entries st ! i)) = Inr es"
      and st': "st' = st\<lparr>entries := CacheEntry_copy (CacheEntry_copy (entries st ! i)) # es\<rparr>"
      using assms(1) i False by (auto simp: read_def Let_def bindE_eq_Inr)
    have "length es < length (entries st)"
      using list_remove_hit [OF es lt] by simp
    moreover have "set es \<subseteq> set (entries st)" by (rule list_remove_subset [OF es])
    ultimately show ?thesis using assms(2) st' by (auto simp: stored_ok_def)
  qed
qed

lemma writeBack_ok:
  assumes "writeBack st tag = Inr (r, st')" "stored_ok st"
  shows "stored_ok st' \<and> ways st' = ways st \<and> setS st' = setS st"
proof -
  obtain i where i: "find_tag (entries st) tag = Inr i"
    using assms(1) by (auto simp: writeBack_def bindE_eq_Inr)
  show ?thesis
  proof (cases "i = length (entries st)")
    case True
    then show ?thesis using assms i by (simp add: writeBack_def)
  next
    case False
    then have lt: "i < length (entries st)" using find_tag_le [OF i] by simp
    define marked where "marked = (entries st)[i := setDirty (entries st ! i) True]"
    obtain es where es: "list_remove marked (CacheEntry_copy (marked ! i)) = Inr es"
      and st': "st' = st\<lparr>entries := CacheEntry_copy (CacheEntry_copy (marked ! i)) # es\<rparr>"
      using assms(1) i False by (auto simp: writeBack_def Let_def bindE_eq_Inr marked_def)
    have lm: "i < length marked" using lt by (simp add: marked_def)
    have "length es < length marked"
      using list_remove_hit [OF es lm] by simp
    moreover have "set es \<subseteq> set marked" by (rule list_remove_subset [OF es])
    moreover have "\<forall>e \<in> set marked. \<not> blank e \<and> \<not> prefetched e"
      using assms(2) lt by (auto simp: marked_def stored_ok_def setDirty_def dest!: set_update_subset_insert [THEN subsetD])
    ultimately show ?thesis using assms(2) st' by (auto simp: stored_ok_def marked_def)
  qed
qed

lemma lru_step_ok:
  "lru_step st x = Inr st' \<Longrightarrow> stored_ok st \<Longrightarrow> stored_ok st' \<and> ways st' = ways st \<and> setS st' = setS st"
  by (cases x) (auto simp: bindE_eq_Inr dest: insertLru_ok inserMru_ok read_ok writeBack_ok retrieve_ok)

lemma lru_run_ok:
  "lru_run st xs = Inr st' \<Longrightarrow> stored_ok st \<Longrightarrow> stored_ok st' \<and> ways st' = ways st \<and> setS st' = setS st"
proof (induction xs arbitrary: st)
  case Nil then show ?case by simp
next
  case (Cons x xs)
  then obtain st1 where s1: "lru_step st x = Inr st1" and r: "lru_run st1 xs = Inr st'"
    by (auto simp: bindE_eq_Inr)
  from lru_step_ok [OF s1 Cons.prems(2)] Cons.IH [OF r] show ?case by simp
qed

lemma victim_step_ok:
  "victim_step st x = Inr st' \<Longrightarrow> stored_ok st \<Longrightarrow> stored_ok st' \<and> ways st' = ways st \<and> setS st' = setS st"
  by (cases x) (auto simp: bindE_eq_Inr dest: VictimSet_insert_ok retrieve_ok)

lemma victim_run_ok:
  "victim_run st xs = Inr st' \<Longrightarrow> stored_ok st \<Longrightarrow> stored_ok st' \<and> ways st' = ways st \<and> setS st' = setS st"
proof (induction xs arbitrary: st)
  case Nil then show ?case by simp
next
  case (Cons x xs)
  then obtain st1 where s1: "victim_step st x = Inr st1" and r: "victim_run st1 xs = Inr st'"
    by (auto simp: bindE_eq_Inr)
  from victim_step_ok [OF s1 Cons.prems(2)] Cons.IH [OF r] show ?case by simp
qed

lemma unat_two_power: "m < 64 \<Longrightarrow> unat ((2::u64) ^ m) = 2 ^ m"
proof -
  assume m: "m < 64"
  have "(2::u64) ^ m = of_nat (2 ^ m)" by simp
  then have "unat ((2::u64) ^ m) = 2 ^ m mod 2 ^ 64" by (simp only: unat_of_nat) simp
  moreover have "(2::nat) ^ m < 2 ^ 64" using m by (intro power_strict_increasing) simp_all
  ultimately show ?thesis by simp
qed

lemma unat_shl_one: "shl 1 n = Inr w \<Longrightarrow> unat w = 2 ^ unat n"
  by (auto simp: shl_def word_less_nat_alt unat_two_power split: if_splits)

lemma CacheSet_new_ok:
  "CacheSet_new c b s = Inr st \<Longrightarrow> stored_ok st \<and> unat (ways st) = 2 ^ unat s \<and> setS st = s \<and> entries st = []"
  by (auto simp: CacheSet_new_def bindE_eq_Inr stored_ok_def dest!: unat_shl_one)

lemma VictimSet_new_ok:
  "VictimSet_new v b = Inr st \<Longrightarrow> stored_ok st \<and> unat (ways st) = 2 ^ unat (setS st) \<and> entries st = []"
  by (auto simp: VictimSet_new_def bindE_eq_Inr stored_ok_def dest!: unat_shl_one)



subsection \<open>Address fields\<close>

lemma shl_two_minus_one: "push_bit n (2::u64) - 1 = mask (Suc n)"
  by (simp add: mask_eq_exp_minus_1 push_bit_eq_mult)

lemma shl_one_minus_one: "push_bit n (1::u64) - 1 = mask n"
  by (simp add: mask_eq_exp_minus_1)

lemma shiftAndMask_eq:
  "bitCount < 64 \<Longrightarrow> shiftAmount < 64 \<Longrightarrow>
   shiftAndMask val bitCount shiftAmount =
     Inr (take_bit (Suc (unat bitCount)) (drop_bit (unat shiftAmount) val))"
  by (simp add: shiftAndMask_def shl_def shr_def shl_two_minus_one take_bit_eq_mask)

lemma unat_lt64: "(w :: u64) < 64 \<longleftrightarrow> unat w < 64"
  by (simp add: word_less_nat_alt)

lemma tag_width:
  fixes d :: u64
  assumes "0 < unat d" "unat d < 64"
  shows "unat (64 - d) = 64 - unat d"
proof -
  have "d \<le> 64" using assms by (simp add: word_le_nat_alt)
  then show ?thesis by (simp add: unat_sub)
qed

lemma setBlockAddress_bits:
  fixes a :: u64
  assumes "0 < n" "n < 64"
  shows "(a AND NOT (push_bit n (2 ^ (64 - n) - 1))) OR push_bit n x = push_bit n x OR take_bit n a"
proof (rule bit_word_eqI)
  fix k assume "k < LENGTH(64)"
  then show "bit ((a AND NOT (push_bit n (2 ^ (64 - n) - 1))) OR push_bit n x) k = bit (push_bit n x OR take_bit n a) k"
    using assms by (auto simp add: bit_simps simp flip: mask_eq_exp_minus_1)
qed

lemma setBlockAddress_eq:
  assumes "0 < unat (entB e)" "unat (entB e) < 64"
  shows "setBlockAddress e ba =
     Inr (e\<lparr>addr := push_bit (unat (entB e)) ba OR take_bit (unat (entB e)) (addr e)\<rparr>)"
proof -
  have b: "entB e < 64" using assms by (simp add: unat_lt64)
  have w: "unat (64 - entB e) = 64 - unat (entB e)" by (rule tag_width [OF assms])
  then have c: "64 - entB e < 64" using assms by (simp add: unat_lt64)
  show ?thesis
    using b c by (simp add: setBlockAddress_def ADDR_WIDTH_def shl_def w
        setBlockAddress_bits [OF assms])
qed

lemma setBlockAddress_zero_b: "entB e = 0 \<Longrightarrow> setBlockAddress e ba = Inl UndefinedBehaviour"
  by (simp add: setBlockAddress_def ADDR_WIDTH_def shl_def)

lemma getBlockAddress_eq:
  assumes "0 < unat (entB e)" "unat (entB e) < 64"
  shows "getBlockAddress e = Inr (drop_bit (unat (entB e)) (addr e))"
proof -
  have b: "entB e < 64" using assms by (simp add: unat_lt64)
  have eq: "indexSize e + tagSize e = 64 - entB e"
    by (simp add: indexSize_def tagSize_def ADDR_WIDTH_def)
  have w: "unat (64 - entB e) = 64 - unat (entB e)" by (rule tag_width [OF assms])
  then have c: "64 - entB e < 64" using assms by (simp add: unat_lt64)
  have "take_bit (Suc (64 - unat (entB e))) (drop_bit (unat (entB e)) (addr e)) = drop_bit (unat (entB e)) (addr e)"
    using assms by (intro bit_word_eqI) (auto simp: bit_simps dest: bit_imp_le_length)
  then show ?thesis
    using b c by (simp add: getBlockAddress_def eq shiftAndMask_eq w byteOffsetSize_def)
qed

lemma recompose_bits:
  fixes a :: u64
  assumes "lo \<le> hi" "hi < 64"
  shows "push_bit hi (take_bit (Suc (64 - hi)) (drop_bit hi a))
     OR push_bit lo (take_bit (Suc (hi - lo)) (drop_bit lo a))
     OR take_bit (Suc lo) a = a"
proof (rule bit_word_eqI)
  fix n assume n: "n < LENGTH(64)"
  consider "n < lo" | "lo \<le> n" "n < hi" | "hi \<le> n" by linarith
  then show "bit (push_bit hi (take_bit (Suc (64 - hi)) (drop_bit hi a))
     OR push_bit lo (take_bit (Suc (hi - lo)) (drop_bit lo a))
     OR take_bit (Suc lo) a) n = bit a n"
  proof cases
    case 1 then show ?thesis using assms n by (auto simp add: bit_simps)
  next
    case 2 then show ?thesis using assms n by (auto simp add: bit_simps)
  next
    case 3 then show ?thesis using assms n by (auto simp add: bit_simps)
  qed
qed

lemma geometry_words:
  fixes c b s :: u64
  assumes "unat s + unat b \<le> unat c" "unat s < unat c" "unat c - unat s < 64"
  shows "unat (c - s) = unat c - unat s"
    and "unat (c - s - b) = unat c - unat s - unat b"
    and "c - s - b + b = c - s"
    and "unat (64 - c + s) = 64 - (unat c - unat s)"
proof -
  have sc: "s \<le> c" using assms by (simp add: word_le_nat_alt)
  show d: "unat (c - s) = unat c - unat s" using sc by (simp add: unat_sub)
  have "b \<le> c - s" using assms d by (simp add: word_le_nat_alt)
  then show "unat (c - s - b) = unat c - unat s - unat b" using d by (simp add: unat_sub)
  show "c - s - b + b = c - s" by simp
  have eq: "64 - c + s = 64 - (c - s)" by simp
  show "unat (64 - c + s) = 64 - (unat c - unat s)"
    unfolding eq using tag_width [of "c - s"] assms d by simp
qed

text \<open>
  Where every shift is defined, the three fields recompose to the address: each field
  keeps one bit more than its width, and that bit is the lowest bit of the next field.
\<close>

lemma decode_compose_roundtrip:
  assumes "unat (entS e) + unat (entB e) \<le> unat (entC e)" "unat (entS e) < unat (entC e)"
    "unat (entC e) - unat (entS e) < 64"
  shows "\<exists>t i off. getTag e = Inr t \<and> getIndex e = Inr i \<and> getByteOffset e = Inr off \<and>
     compose e t i off = Inr (addr e)"
proof -
  note g = geometry_words [OF assms]
  have b: "entB e < 64" using assms by (simp add: unat_lt64)
  have i: "indexSize e < 64" using assms g(2) by (simp add: unat_lt64 indexSize_def)
  have ib: "indexSize e + entB e < 64"
    using assms g(1,3) by (simp add: unat_lt64 indexSize_def)
  have t: "tagSize e < 64" using assms g(4) by (simp add: unat_lt64 tagSize_def ADDR_WIDTH_def)
  have ut: "unat (tagSize e) = 64 - (unat (entC e) - unat (entS e))"
    using g(4) by (simp add: tagSize_def ADDR_WIDTH_def)
  have ui: "unat (indexSize e) = unat (entC e) - unat (entS e) - unat (entB e)"
    using g(2) by (simp add: indexSize_def)
  have uib: "unat (indexSize e + entB e) = unat (entC e) - unat (entS e)"
    using g(1,3) by (simp add: indexSize_def)
  have le: "unat (entB e) \<le> unat (entC e) - unat (entS e)" using assms by simp
  note main = recompose_bits [OF le assms(3), of "addr e"]
  show ?thesis
    using main b i ib t
    by (simp add: getTag_def getIndex_def getByteOffset_def compose_def shiftAndMask_eq ut ui uib
        shl_def byteOffsetSize_def)
qed

subsection \<open>cache_init\<close>

lemma push_sets_length: "push_sets n c b s vec = Inr vec' \<Longrightarrow> length vec' = length vec + n"
  by (induction n arbitrary: vec) (auto simp: bindE_eq_Inr)

lemma push_sets_defined: "s < 64 \<Longrightarrow> \<exists>vec'. push_sets n c b s vec = Inr vec'"
  by (induction n arbitrary: vec) (auto simp: CacheSet_new_def shl_def)

lemma cache_init_setup_vectors:
  assumes "cache_init_setup conf g = Inr g'"
  shows "l2 g' = l2 g"
    and "length (l1 g') = length (l1 g) + unat (L1_NUM_SETS g') + unat (L2_NUM_SETS g')"
    and "shl 1 (cfg_c conf - cfg_s conf - cfg_b conf) = Inr (L1_NUM_SETS g')"
    and "shl 1 (cfg_C conf - cfg_S conf - cfg_b conf) = Inr (L2_NUM_SETS g')"
  using assms
  by (auto simp: cache_init_setup_def Let_def bindE_eq_Inr VictimSet_init_def CacheSet_init_def
      dest!: push_sets_length)

lemma cache_init_throws:
  "cache_init_setup conf g = Inr g' \<Longrightarrow>
   cache_init conf g = (Inl (Thrown ''done initializing!!!\<newline>''), g')"
  by (simp add: cache_init_def)

lemma cache_init_never_returns: "fst (cache_init conf g) \<noteq> Inr u"
  by (simp add: cache_init_def split: sum.splits)

text \<open>
  There is no validation: a first-level geometry with \<open>c < s + b\<close> makes the set count
  a shift by a wrapped-around, huge amount.
\<close>

lemma shl_invalid_geometry:
  fixes c s b :: u64
  assumes "unat c < unat s + unat b" "unat s + unat b \<le> 2 ^ 64 - 64"
  shows "shl 1 (c - s - b) = Inl UndefinedBehaviour"
proof -
  have sb: "unat (s + b) = unat s + unat b"
    using assms(2) by (simp add: unat_add_lem [THEN iffD1])
  have lt: "c < s + b" using assms(1) sb by (simp add: word_less_nat_alt)
  have "unat (c - (s + b)) = 2 ^ 64 + unat c - unat (s + b)"
    using lt by (simp add: unat_sub_if' word_less_nat_alt)
  then have "64 \<le> unat (c - (s + b))" using assms sb by simp
  then have big: "\<not> c - (s + b) < 64" by (simp add: word_less_nat_alt)
  have eq: "c - s - b = c - (s + b)" by simp
  show ?thesis unfolding shl_def eq using big by (simp only: if_False)
qed

lemma cache_init_invalid_undefined:
  assumes "unat (cfg_c conf) < unat (cfg_s conf) + unat (cfg_b conf)"
    "unat (cfg_s conf) + unat (cfg_b conf) \<le> 2 ^ 64 - 64"
  shows "cache_init conf g = (Inl UndefinedBehaviour, g)"
  using shl_invalid_geometry [OF assms]
  by (simp add: cache_init_def cache_init_setup_def Let_def)

lemma ceil_log2_3: "ceil_log2 3 = 2"
  by code_simp

lemma example_config_setup:
  "\<exists>g'. cache_init_setup example_config globals_at_start = Inr g'"
proof -
  obtain v1 where v1: "push_sets 16 10 5 1 [] = Inr v1"
    using push_sets_defined [of 1 16 10 5 "[]"] by auto
  obtain v2 where v2: "push_sets 32 12 5 2 v1 = Inr v2"
    using push_sets_defined [of 2 32 12 5 v1] by auto
  show ?thesis
    using v1 v2
    by (simp add: cache_init_setup_def example_config_def globals_at_start_def Let_def shl_def
        VictimSet_init_def CacheSet_init_def clog2_def ceil_log2_3 del: ceil_log2.simps)
qed

lemmas eval_defs = CacheSet_new_def VictimSet_new_def shl_def shr_def bindE_def
  insertLru_def inserMru_def read_def writeBack_def retrieve_def seek_def contains_def
  VictimSet_insert_def getTag_def getIndex_def getByteOffset_def shiftAndMask_def tagSize_def
  indexSize_def byteOffsetSize_def ADDR_WIDTH_def CacheEntry_new_def CacheEntry_copy_def
  CacheEntry_blank_def setDirty_def setPrefetched_def Let_def

subsection \<open>Recency order of an LruSet\<close>








subsection \<open>The prefetch loop\<close>

lemma getBlockAddress_defined:
  assumes "getBlockAddress e = Inr ba"
  shows "0 < unat (entB e) \<and> unat (entB e) < 64"
proof -
  have eq: "indexSize e + tagSize e = 64 - entB e"
    by (simp add: indexSize_def tagSize_def ADDR_WIDTH_def)
  from assms have "64 - entB e < 64" "entB e < 64"
    by (auto simp: getBlockAddress_def eq shiftAndMask_def shl_def shr_def byteOffsetSize_def
        bindE_eq_Inr split: if_splits)
  then show ?thesis
    by (cases "entB e = 0") (auto simp: unat_lt64 unat_gt_0)
qed

lemma candidate_zero:
  "candidate e (drop_bit (unat (entB e)) (addr e)) 0
     = setPrefetched (setDirty (CacheEntry_copy e) False) True"
proof -
  have "push_bit (unat (entB e)) (drop_bit (unat (entB e)) (addr e))
          OR take_bit (unat (entB e)) (addr e) = addr e"
    by (rule bit_word_eqI) (auto simp: bit_simps)
  then show ?thesis
    by (simp add: candidate_def setPrefetched_def setDirty_def CacheEntry_copy_def)
qed

lemma candidate_step:
  assumes "0 < unat (entB e)" "unat (entB e) < 64"
  shows "setBlockAddress (candidate e ba k) (ba + of_nat k + 1) = Inr (candidate e ba (Suc k))"
proof -
  have b: "entB (candidate e ba k) = entB e" by (simp add: candidate_def)
  have "take_bit (unat (entB e))
          (push_bit (unat (entB e)) (ba + of_nat k) OR take_bit (unat (entB e)) (addr e))
        = take_bit (unat (entB e)) (addr e)"
    by (rule bit_word_eqI) (auto simp: bit_simps)
  then show ?thesis
    using setBlockAddress_eq [of "candidate e ba k" "ba + of_nat k + 1"] assms
    by (simp add: b) (simp add: candidate_def ac_simps)
qed

lemma prefetch_loop_steps:
  assumes "0 < unat (entB e)" "unat (entB e) < 64"
  shows "prefetch_loop n (ba + of_nat k) (candidate e ba k) cache evs
       = prefetch_steps (map (candidate e ba) [Suc k..<Suc k + n]) cache evs"
proof (induction n arbitrary: k cache evs)
  case 0 then show ?case by simp
next
  case (Suc n)
  have up: "[Suc k..<Suc k + Suc n] = Suc k # [Suc (Suc k)..<Suc (Suc k) + n]"
    by (simp add: upt_rec)
  have ba: "ba + of_nat k + 1 = ba + of_nat (Suc k)" by simp
  have cs: "setBlockAddress (candidate e ba k) (ba + of_nat (Suc k)) = Inr (candidate e ba (Suc k))"
    using candidate_step [OF assms, of ba k] by (simp only: ba)
  show ?case
    unfolding up
    by (simp only: prefetch_loop.simps Let_def list.map prefetch_steps.simps ba cs bindE_simps
        Suc.IH)
qed

lemma prefetch_refines: "prefetch pf cache startEntry = prefetch_spec pf cache startEntry"
proof (cases "getBlockAddress startEntry")
  case (Inl err)
  then show ?thesis by (simp add: prefetch_def prefetch_spec_def)
next
  case (Inr ba)
  note b = getBlockAddress_defined [OF Inr]
  have ba: "ba = drop_bit (unat (entB startEntry)) (addr startEntry)"
    using Inr getBlockAddress_eq [of startEntry] b by simp
  have "prefetch_loop (unat (prefK pf)) ba
          (setPrefetched (setDirty (CacheEntry_copy startEntry) False) True) cache []
      = prefetch_steps (map (candidate startEntry ba) [1..<Suc (unat (prefK pf))]) cache []"
    using prefetch_loop_steps [of startEntry "unat (prefK pf)" ba 0 cache "[]"] b
    by (simp add: candidate_zero [symmetric] ba)
  then show ?thesis using Inr by (simp add: prefetch_def prefetch_spec_def)
qed


lemma find_tag_miss: "find_tag es tag = Inr (length es) \<Longrightarrow> Inr tag \<notin> set (map getTag es)"
proof (induction es)
  case Nil then show ?case by simp
next
  case (Cons e es)
  from Cons.prems obtain t where t: "getTag e = Inr t" "t \<noteq> tag"
    and r: "find_tag es tag = Inr (length es)"
    by (auto simp: bindE_eq_Inr split: if_splits)
  from Cons.IH [OF r] t show ?case by simp
qed

lemma contains_False: "contains st tag = Inr False \<Longrightarrow> Inr tag \<notin> set (map getTag (entries st))"
  by (auto simp: contains_def bindE_eq_Inr split: if_splits dest: find_tag_miss)

lemma insertLru_entries:
  assumes "insertLru st cand = Inr (ev, st')"
  shows "(entries st' = entries st @ [CacheEntry_copy cand] \<or>
          entries st' = butlast (entries st) @ [CacheEntry_copy cand]) \<and>
         ways st' = ways st"
  using assms by (auto simp: insertLru_def Let_def split: if_splits)

lemma insertLru_distinct:
  assumes "insertLru st cand = Inr (ev, st')" "getTag cand \<notin> set (map getTag (entries st))"
    "distinct (map getTag (entries st))"
  shows "distinct (map getTag (entries st'))"
proof -
  have "distinct (map getTag (butlast (entries st)))"
    using assms(3) by (simp add: map_butlast distinct_butlast)
  moreover have "getTag cand \<notin> set (map getTag (butlast (entries st)))"
    using assms(2) by (auto dest: in_set_butlastD)
  ultimately show ?thesis
    using insertLru_entries [OF assms(1)] assms(2,3) by auto
qed

lemma insertLru_lines:
  assumes "insertLru st cand = Inr (ev, st')" "x \<in> set (entries st')"
  shows "x \<in> set (entries st) \<or> x = CacheEntry_copy cand"
  using insertLru_entries [OF assms(1)] assms(2) by (auto dest: in_set_butlastD)

lemma steps_post_refl: "steps_post cache cache"
  by (simp add: steps_post_def)

lemma steps_post_trans:
  "steps_post c1 c2 \<Longrightarrow> steps_post c2 c3 \<Longrightarrow> steps_post c1 c3"
  unfolding steps_post_def by (intro conjI allI impI ballI) (simp, fastforce, fastforce)

lemma steps_post_insert:
  assumes "idx < length cache" "insertLru (cache ! idx) cand = Inr (ev, st)"
    "contains (cache ! idx) tag = Inr False" "getTag cand = Inr tag" "\<not> dirty cand"
  shows "steps_post cache (cache[idx := st])"
proof -
  have d: "distinct (map getTag (entries (cache ! idx))) \<Longrightarrow> distinct (map getTag (entries st))"
    using insertLru_distinct [OF assms(2)] contains_False [OF assms(3)] assms(4) by simp
  have l: "x \<in> set (entries (cache ! idx)) \<or> (\<not> dirty x \<and> \<not> prefetched x)"
    if "x \<in> set (entries st)" for x
    using insertLru_lines [OF assms(2) that] assms(5) by auto
  show ?thesis
    unfolding steps_post_def
  proof (intro conjI allI impI)
    show "length (cache[idx := st]) = length cache" by simp
  next
    fix j assume j: "j < length cache" and "distinct (map getTag (entries (cache ! j)))"
    then show "distinct (map getTag (entries (cache[idx := st] ! j)))"
      using d assms(1) by (cases "j = idx") simp_all
  next
    fix j assume j: "j < length cache"
    show "\<forall>x\<in>set (entries (cache[idx := st] ! j)).
            x \<in> set (entries (cache ! j)) \<or> (\<not> dirty x \<and> \<not> prefetched x)"
      using l assms(1) j by (cases "j = idx") simp_all
  qed
qed

lemma prefetch_steps_post:
  assumes "prefetch_steps cands cache evs = Inr (cache', evs')" "\<forall>c \<in> set cands. \<not> dirty c"
  shows "steps_post cache cache'"
  using assms
proof (induction cands arbitrary: cache evs)
  case Nil then show ?case by (simp add: steps_post_refl)
next
  case (Cons cand cands)
  from Cons.prems(1) obtain idx tag present where idx: "getIndex cand = Inr idx"
    and rng: "unat idx < length cache" and tag: "getTag cand = Inr tag"
    and pr: "contains (cache ! unat idx) tag = Inr present"
    by (auto simp: bindE_eq_Inr split: if_splits)
  have nd: "\<forall>c \<in> set cands. \<not> dirty c" "\<not> dirty cand" using Cons.prems(2) by simp_all
  show ?case
  proof (cases present)
    case True
    then have "prefetch_steps cands cache evs = Inr (cache', evs')"
      using Cons.prems(1) idx rng tag pr by simp
    from Cons.IH [OF this nd(1)] show ?thesis .
  next
    case False
    then obtain ev st where ins: "insertLru (cache ! unat idx) cand = Inr (ev, st)"
      and rest: "prefetch_steps cands (cache[unat idx := st])
                   (if blank ev then evs else evs @ [CacheEntry_copy ev]) = Inr (cache', evs')"
      using Cons.prems(1) idx rng tag pr by (auto simp: bindE_eq_Inr)
    have "steps_post cache (cache[unat idx := st])"
      using steps_post_insert [OF rng ins _ tag nd(2)] pr False by simp
    from steps_post_trans [OF this Cons.IH [OF rest nd(1)]] show ?thesis .
  qed
qed

lemma candidate_blockAddress:
  assumes "0 < unat (entB e)" "unat (entB e) < 64"
  shows "getBlockAddress (candidate e ba i)
       = Inr (take_bit (64 - unat (entB e)) (ba + of_nat i))"
proof -
  have b: "entB (candidate e ba i) = entB e" by (simp add: candidate_def)
  have "drop_bit (unat (entB e))
          (push_bit (unat (entB e)) (ba + of_nat i) OR take_bit (unat (entB e)) (addr e))
        = take_bit (64 - unat (entB e)) (ba + of_nat i)"
    using assms by (intro bit_word_eqI) (auto simp: bit_simps)
  then show ?thesis
    using getBlockAddress_eq [of "candidate e ba i"] assms
    by (simp add: b) (simp add: candidate_def)
qed

lemma insertLru_under:
  "length (entries st) < unat (ways st) \<Longrightarrow>
   insertLru st e = Inr (CacheEntry_blank, st\<lparr>entries := entries st @ [CacheEntry_copy e]\<rparr>)"
  by (simp add: insertLru_def Let_def)

lemma insertLru_full:
  "\<not> length (entries st) < unat (ways st) \<Longrightarrow> entries st \<noteq> [] \<Longrightarrow>
   insertLru st e = Inr (CacheEntry_copy (last (entries st)),
                         st\<lparr>entries := butlast (entries st) @ [CacheEntry_copy e]\<rparr>)"
  by (simp add: insertLru_def Let_def)

lemma prefetch_clears_buffer:
  "prefetch (pf\<lparr>evictions := old\<rparr>) cache startEntry = prefetch pf cache startEntry"
  by (simp add: prefetch_def Let_def)

lemma prefetch_post:
  assumes "prefetch pf cache startEntry = Inr (pf', cache')"
  shows "steps_post cache cache'"
proof -
  from assms obtain ba evs where
    "prefetch_steps (map (candidate startEntry ba) [1..<Suc (unat (prefK pf))]) cache []
       = Inr (cache', evs)"
    unfolding prefetch_refines prefetch_spec_def by (auto simp: bindE_eq_Inr)
  moreover have "\<forall>c \<in> set (map (candidate startEntry ba) [1..<Suc (unat (prefK pf))]). \<not> dirty c"
    by (simp add: candidate_def)
  ultimately show ?thesis by (rule prefetch_steps_post)
qed

lemma prefetch_loop_2: "prefetch_loop 2 = prefetch_loop (Suc (Suc 0))"
  by (simp add: numeral_2_eq_2)

lemmas pf_defs = prefetch_def getBlockAddress_def setBlockAddress_def

subsection \<open>The reference times of an LruSet\<close>







lemma least_recent_least:
  "least_recent p ps \<in> set (p # ps) \<and> (\<forall>q \<in> set (p # ps). fst (least_recent p ps) \<le> fst q)"
proof (induction ps arbitrary: p)
  case Nil then show ?case by (simp add: least_recent_def)
next
  case (Cons a ps)
  have step: "least_recent p (a # ps) = least_recent (if fst a < fst p then a else p) ps"
    by (simp add: least_recent_def)
  show ?case
  proof (cases "fst a < fst p")
    case True
    with Cons.IH [of a] step show ?thesis by (auto intro: order_trans less_imp_le)
  next
    case False
    with Cons.IH [of p] step show ?thesis by (auto intro: order_trans simp: not_less)
  qed
qed















lemma stored_copy: "stored_ok st \<Longrightarrow> x \<in> set (entries st) \<Longrightarrow> CacheEntry_copy x = x"
  by (cases x) (auto simp: stored_ok_def CacheEntry_copy_def)











section \<open>The claims\<close>

subsection \<open>Address decomposition\<close>

text \<open>
  Claim C1: decomposing an address into tag, index and byte offset and recomposing the
  three reproduces the address, each field masks exactly its declared number of bits,
  and a field of 0 bits contributes nothing.

  The recomposition holds (\<open>decode_compose_roundtrip\<close>), but the fields are not exact:
  \<^verbatim>\<open>shiftAndMask\<close> builds its mask from \<^verbatim>\<open>2UL << bitCount\<close>, so every field keeps
  \<open>bitCount + 1\<close> bits (\<open>shiftAndMask_eq\<close>).  With \<open>c = 10\<close>, \<open>b = 5\<close>, \<open>s = 1\<close> the 5-bit
  byte offset of address \<open>0x20\<close> is 32, the 4-bit index of address \<open>0x200\<close> is 16 (there
  are 16 sets, numbered from 0), and with \<open>b = 0\<close> the byte offset of address 1 is 1.
  For \<open>c = s\<close> (and \<open>b = 0\<close>) the tag has 64 bits and its mask is \<^verbatim>\<open>2UL << 64\<close>, which is
  undefined.
\<close>

theorem field_masks_keep_an_extra_bit:
  "getByteOffset (CacheEntry_new 0x20 False 10 5 1) = Inr 0x20 \<and>
   getIndex (CacheEntry_new 0x200 False 10 5 1) = Inr 0x10 \<and>
   getByteOffset (CacheEntry_new 1 False 4 0 2) = Inr 1 \<and>
   getTag (CacheEntry_new 1 False 2 0 2) = Inl UndefinedBehaviour"
  by (simp add: eval_defs)

text \<open>
  Claim C9: \<^verbatim>\<open>setBlockAddress\<close> replaces only the block-address bits, for every \<open>b\<close>
  including \<open>b = 0\<close>.

  For \<open>0 < b < 64\<close> it does (\<open>setBlockAddress_eq\<close>).  For \<open>b = 0\<close> the mask is computed
  as \<^verbatim>\<open>1UL << 64\<close>, a shift by the full width of the type, which has no defined result.
\<close>

theorem setBlockAddress_undefined_for_b_zero:
  "setBlockAddress (CacheEntry_new 1 False 4 0 2) 2 = Inl UndefinedBehaviour"
  by (simp add: setBlockAddress_def ADDR_WIDTH_def shl_def CacheEntry_new_def)

subsection \<open>Initialisation\<close>

text \<open>
  Claim C2: \<^verbatim>\<open>cache_init\<close> fails exactly on the geometrically invalid configurations
  and completes on every valid one.

  The function ends in an unconditional \<^verbatim>\<open>throw\<close> (\<open>cache_init_never_returns\<close>): on the
  valid configuration \<open>example_config\<close> the setup runs through and the call still ends
  with the string \<^verbatim>\<open>done initializing!!!\<close> thrown.  Nothing is validated either
  (\<open>cache_init_invalid_undefined\<close>).
\<close>

theorem cache_init_throws_on_valid_config:
  "config_valid example_config \<and>
   fst (cache_init example_config globals_at_start) = Inl (Thrown ''done initializing!!!\<newline>'')"
proof -
  obtain g' where "cache_init_setup example_config globals_at_start = Inr g'"
    using example_config_setup by blast
  then have "fst (cache_init example_config globals_at_start)
      = Inl (Thrown ''done initializing!!!\<newline>'')"
    by (simp add: cache_init_throws)
  moreover have "config_valid example_config"
    by (simp add: config_valid_def example_config_def)
  ultimately show ?thesis by simp
qed

text \<open>
  Claim C3: after initialisation the first level has \<open>2 ^ (l1_c - l1_s - b)\<close> sets and the
  second level \<open>2 ^ (l2_c - l2_s - b)\<close> sets, each in its own vector.

  Both loops of \<^verbatim>\<open>cache_init\<close> push into \<^verbatim>\<open>l1\<close>.  For \<open>example_config\<close> (16 first-level
  and 32 second-level sets) the vector \<^verbatim>\<open>l1\<close> ends with 48 sets and \<^verbatim>\<open>l2\<close> stays empty.
\<close>

theorem cache_init_fills_only_l1:
  "length (l1 (snd (cache_init example_config globals_at_start))) = 48 \<and>
   l2 (snd (cache_init example_config globals_at_start)) = [] \<and>
   L1_NUM_SETS (snd (cache_init example_config globals_at_start)) = 16 \<and>
   L2_NUM_SETS (snd (cache_init example_config globals_at_start)) = 32"
proof -
  obtain g' where g': "cache_init_setup example_config globals_at_start = Inr g'"
    using example_config_setup by blast
  note v = cache_init_setup_vectors [OF g']
  have n1: "L1_NUM_SETS g' = 16" using v(3) by (simp add: example_config_def shl_def)
  have n2: "L2_NUM_SETS g' = 32" using v(4) by (simp add: example_config_def shl_def)
  have "l2 g' = []" using v(1) by (simp add: globals_at_start_def)
  moreover have "length (l1 g') = 48" using v(2) n1 n2 by (simp add: globals_at_start_def)
  ultimately show ?thesis using n1 n2 by (simp add: cache_init_throws [OF g'])
qed

subsection \<open>The victim cache and the eviction buffer\<close>

text \<open>
  Claim C6: a victim cache configured with \<open>V > 0\<close> holds at most \<open>V\<close> entries; an insert
  into a victim cache that holds \<open>V\<close> lines evicts the oldest.

  The capacity tested by \<^verbatim>\<open>VictimSet::insert\<close> is \<^verbatim>\<open>ways = 1UL << clog2(v)\<close>, the next
  power of two, and the member \<^verbatim>\<open>v\<close> is never read.  A victim cache of \<open>V = 3\<close> blocks
  takes a fourth line and evicts nothing.
\<close>

theorem victim_cache_of_three_holds_four:
  "VictimSet_new 3 5 = Inr \<lparr>ways = 4, setC = 7, setB = 5, setS = 2, entries = [], setV = 3\<rparr> \<and>
   victim_run \<lparr>ways = 4, setC = 7, setB = 5, setS = 2, entries = [], setV = 3\<rparr>
     [VInsert (CacheEntry_new 0x000 False 12 5 2), VInsert (CacheEntry_new 0x400 False 12 5 2),
      VInsert (CacheEntry_new 0x800 False 12 5 2), VInsert (CacheEntry_new 0xC00 False 12 5 2)]
   = Inr \<lparr>ways = 4, setC = 7, setB = 5, setS = 2,
          entries = [CacheEntry_new 0xC00 False 12 5 2, CacheEntry_new 0x800 False 12 5 2,
                     CacheEntry_new 0x400 False 12 5 2, CacheEntry_new 0x000 False 12 5 2],
          setV = 3\<rparr>"
  by (simp add: eval_defs clog2_def ceil_log2_3 del: ceil_log2.simps)

text \<open>
  Claim C8: \<^verbatim>\<open>popEviction\<close> on an empty eviction buffer returns the empty line, otherwise
  it removes and returns the oldest eviction; \<^verbatim>\<open>checkEmpty\<close> tells whether the buffer is
  empty.

  \<^verbatim>\<open>popEviction\<close> reads \<^verbatim>\<open>evictions.front()\<close> without a test.  On the prefetcher as it
  stands before any prefetch, whose buffer \<^verbatim>\<open>checkEmpty\<close> reports empty, the call is
  undefined rather than a blank line.
\<close>

theorem popEviction_on_empty_buffer:
  "checkEmpty (l2Prefetch globals_at_start) \<and>
   popEviction (l2Prefetch globals_at_start) = Inl UndefinedBehaviour"
  by (simp add: checkEmpty_def popEviction_def globals_at_start_def)

subsection \<open>Invariants of the associative sets\<close>

text \<open>
  Claim C7: for every associative set (\<^verbatim>\<open>LruSet\<close> or \<^verbatim>\<open>VictimSet\<close>) and every sequence of
  calls, the number of lines the set holds never exceeds its ways, \<open>2 ^ s\<close>.  Here the
  sets are the ones the constructors build, the calls are all member functions of the
  two classes, and the bound is on all lines held, blank or not.
\<close>

theorem capacity_invariant:
  assumes "CacheSet_new c_i b_i s_i = Inr st0" and "lru_run st0 ops = Inr st"
    and "VictimSet_new v_i b_j = Inr vs0" and "victim_run vs0 vops = Inr vs"
  shows "getSize st \<le> unat (getWays st) \<and> unat (getWays st) = 2 ^ unat s_i \<and>
         getSize vs \<le> unat (getWays vs) \<and> unat (getWays vs) = 2 ^ unat (setS vs)"
proof -
  from CacheSet_new_ok [OF assms(1)] lru_run_ok [OF assms(2)]
  have "stored_ok st" "ways st = ways st0" "unat (ways st0) = 2 ^ unat s_i" by simp_all
  moreover from VictimSet_new_ok [OF assms(3)] victim_run_ok [OF assms(4)]
  have "stored_ok vs" "ways vs = ways vs0" "setS vs = setS vs0"
    "unat (ways vs0) = 2 ^ unat (setS vs0)" by simp_all
  ultimately show ?thesis by (simp add: stored_ok_def getSize_def getWays_def)
qed

theorem capacity_invariant_witness:
  "CacheSet_new 10 5 1 = Inr \<lparr>ways = 2, setC = 10, setB = 5, setS = 1, entries = []\<rparr> \<and>
   lru_run \<lparr>ways = 2, setC = 10, setB = 5, setS = 1, entries = []\<rparr>
     [InserMru (CacheEntry_new 0 False 10 5 1),
      InsertLru (setPrefetched (CacheEntry_new 0x400 False 10 5 1) True),
      Read 0, InserMru (CacheEntry_new 0x800 True 10 5 1)]
   = Inr \<lparr>ways = 2, setC = 10, setB = 5, setS = 1,
          entries = [CacheEntry_new 0x800 True 10 5 1, CacheEntry_new 0 False 10 5 1]\<rparr> \<and>
   VictimSet_new 2 5 = Inr \<lparr>ways = 2, setC = 6, setB = 5, setS = 1, entries = [], setV = 2\<rparr> \<and>
   victim_run \<lparr>ways = 2, setC = 6, setB = 5, setS = 1, entries = [], setV = 2\<rparr>
     [VInsert (CacheEntry_new 0x000 False 12 5 2), VInsert (CacheEntry_new 0x400 False 12 5 2),
      VInsert (CacheEntry_new 0x800 False 12 5 2)]
   = Inr \<lparr>ways = 2, setC = 6, setB = 5, setS = 1,
          entries = [CacheEntry_new 0x800 False 12 5 2, CacheEntry_new 0x400 False 12 5 2],
          setV = 2\<rparr> \<and>
   getSize \<lparr>ways = 2, setC = 10, setB = 5, setS = 1,
          entries = [CacheEntry_new 0x800 True 10 5 1, CacheEntry_new 0 False 10 5 1]\<rparr>
     \<le> unat (2 :: u64)"
proof -
  have h1: "CacheSet_new 10 5 1 = Inr \<lparr>ways = 2, setC = 10, setB = 5, setS = 1, entries = []\<rparr>"
    by (simp add: eval_defs)
  have h2: "lru_run \<lparr>ways = 2, setC = 10, setB = 5, setS = 1, entries = []\<rparr>
     [InserMru (CacheEntry_new 0 False 10 5 1),
      InsertLru (setPrefetched (CacheEntry_new 0x400 False 10 5 1) True),
      Read 0, InserMru (CacheEntry_new 0x800 True 10 5 1)]
   = Inr \<lparr>ways = 2, setC = 10, setB = 5, setS = 1,
          entries = [CacheEntry_new 0x800 True 10 5 1, CacheEntry_new 0 False 10 5 1]\<rparr>"
    by (simp add: eval_defs)
  have ceil2: "ceil_log2 2 = 1" by code_simp
  have h3: "VictimSet_new 2 5
      = Inr \<lparr>ways = 2, setC = 6, setB = 5, setS = 1, entries = [], setV = 2\<rparr>"
    by (simp add: eval_defs clog2_def ceil2 del: ceil_log2.simps)
  have h4: "victim_run \<lparr>ways = 2, setC = 6, setB = 5, setS = 1, entries = [], setV = 2\<rparr>
     [VInsert (CacheEntry_new 0x000 False 12 5 2), VInsert (CacheEntry_new 0x400 False 12 5 2),
      VInsert (CacheEntry_new 0x800 False 12 5 2)]
   = Inr \<lparr>ways = 2, setC = 6, setB = 5, setS = 1,
          entries = [CacheEntry_new 0x800 False 12 5 2, CacheEntry_new 0x400 False 12 5 2],
          setV = 2\<rparr>"
    by (simp add: eval_defs)
  from capacity_invariant [OF h1 h2 h3 h4] h1 h2 h3 h4 show ?thesis
    by (simp add: getWays_def)
qed

text \<open>
  Claim C10: a copy-constructed entry has \<^verbatim>\<open>blank = false\<close> and \<^verbatim>\<open>prefetched = false\<close>
  whatever the flags of the original, and only the address, the dirty bit and the geometry
  are copied; since the sets take the line by value, every line stored in an \<^verbatim>\<open>LruSet\<close>
  or a \<^verbatim>\<open>VictimSet\<close> has \<^verbatim>\<open>prefetched = false\<close>, also when the caller had set the flag
  on the line it passed in.  In particular every line that \<^verbatim>\<open>prefetch\<close> adds to a set
  is stored without the flag, although every candidate carries it.
\<close>

theorem stored_lines_are_never_prefetched:
  assumes "CacheSet_new c_i b_i s_i = Inr st0" and "lru_run st0 ops = Inr st"
    and "VictimSet_new v_i b_j = Inr vs0" and "victim_run vs0 vops = Inr vs"
  shows "blank (CacheEntry_copy e) = False \<and> prefetched (CacheEntry_copy e) = False \<and>
         addr (CacheEntry_copy e) = addr e \<and> dirty (CacheEntry_copy e) = dirty e \<and>
         entC (CacheEntry_copy e) = entC e \<and> entB (CacheEntry_copy e) = entB e \<and>
         entS (CacheEntry_copy e) = entS e \<and>
         (\<forall>x \<in> set (entries st). \<not> prefetched x) \<and>
         (\<forall>x \<in> set (entries vs). \<not> prefetched x) \<and>
         (\<forall>pf' cache'. prefetch pf cache startEntry = Inr (pf', cache') \<longrightarrow>
            (\<forall>j < length cache. \<forall>x \<in> set (entries (cache' ! j)).
               x \<in> set (entries (cache ! j)) \<or> \<not> prefetched x))"
proof -
  from CacheSet_new_ok [OF assms(1)] lru_run_ok [OF assms(2)]
  have "stored_ok st" by simp
  moreover from VictimSet_new_ok [OF assms(3)] victim_run_ok [OF assms(4)]
  have "stored_ok vs" by simp
  moreover have "\<forall>j < length cache. \<forall>x \<in> set (entries (cache' ! j)).
               x \<in> set (entries (cache ! j)) \<or> \<not> prefetched x"
    if "prefetch pf cache startEntry = Inr (pf', cache')" for pf' cache'
    using prefetch_post [OF that] unfolding steps_post_def by blast
  ultimately show ?thesis by (simp add: stored_ok_def)
qed

theorem stored_lines_are_never_prefetched_witness:
  "prefetched (setPrefetched (CacheEntry_new 0x400 False 10 5 1) True) \<and>
   CacheSet_new 10 5 1 = Inr \<lparr>ways = 2, setC = 10, setB = 5, setS = 1, entries = []\<rparr> \<and>
   lru_run \<lparr>ways = 2, setC = 10, setB = 5, setS = 1, entries = []\<rparr>
     [InsertLru (setPrefetched (CacheEntry_new 0x400 False 10 5 1) True),
      InserMru (setPrefetched (CacheEntry_new 0x800 False 10 5 1) True)]
   = Inr \<lparr>ways = 2, setC = 10, setB = 5, setS = 1,
          entries = [CacheEntry_new 0x800 False 10 5 1, CacheEntry_new 0x400 False 10 5 1]\<rparr> \<and>
   VictimSet_new 2 5 = Inr \<lparr>ways = 2, setC = 6, setB = 5, setS = 1, entries = [], setV = 2\<rparr> \<and>
   victim_run \<lparr>ways = 2, setC = 6, setB = 5, setS = 1, entries = [], setV = 2\<rparr>
     [VInsert (setPrefetched (CacheEntry_new 0x400 False 12 5 2) True)]
   = Inr \<lparr>ways = 2, setC = 6, setB = 5, setS = 1,
          entries = [CacheEntry_new 0x400 False 12 5 2], setV = 2\<rparr> \<and>
   list_all (\<lambda>x. \<not> prefetched x)
     [CacheEntry_new 0x800 False 10 5 1, CacheEntry_new 0x400 False 10 5 1] \<and>
   list_all (\<lambda>x. \<not> prefetched x) [CacheEntry_new 0x400 False 12 5 2] \<and>
   prefetch \<lparr>prefK = 1, prefC = 6, prefB = 5, prefS = 1, evictions = []\<rparr>
     [\<lparr>ways = 2, setC = 6, setB = 5, setS = 1, entries = []\<rparr>]
     (CacheEntry_new 0x20 True 6 5 1)
   = Inr (\<lparr>prefK = 1, prefC = 6, prefB = 5, prefS = 1, evictions = []\<rparr>,
          [\<lparr>ways = 2, setC = 6, setB = 5, setS = 1,
            entries = [CacheEntry_new 0x40 False 6 5 1]\<rparr>]) \<and>
   list_all (\<lambda>x. \<not> prefetched x) [CacheEntry_new 0x40 False 6 5 1]"
proof -
  have h1: "CacheSet_new 10 5 1 = Inr \<lparr>ways = 2, setC = 10, setB = 5, setS = 1, entries = []\<rparr>"
    by (simp add: eval_defs)
  have h2: "lru_run \<lparr>ways = 2, setC = 10, setB = 5, setS = 1, entries = []\<rparr>
     [InsertLru (setPrefetched (CacheEntry_new 0x400 False 10 5 1) True),
      InserMru (setPrefetched (CacheEntry_new 0x800 False 10 5 1) True)]
   = Inr \<lparr>ways = 2, setC = 10, setB = 5, setS = 1,
          entries = [CacheEntry_new 0x800 False 10 5 1, CacheEntry_new 0x400 False 10 5 1]\<rparr>"
    by (simp add: eval_defs)
  have ceil2: "ceil_log2 2 = 1" by code_simp
  have h3: "VictimSet_new 2 5
      = Inr \<lparr>ways = 2, setC = 6, setB = 5, setS = 1, entries = [], setV = 2\<rparr>"
    by (simp add: eval_defs clog2_def ceil2 del: ceil_log2.simps)
  have h4: "victim_run \<lparr>ways = 2, setC = 6, setB = 5, setS = 1, entries = [], setV = 2\<rparr>
     [VInsert (setPrefetched (CacheEntry_new 0x400 False 12 5 2) True)]
   = Inr \<lparr>ways = 2, setC = 6, setB = 5, setS = 1,
          entries = [CacheEntry_new 0x400 False 12 5 2], setV = 2\<rparr>"
    by (simp add: eval_defs)
  have p: "prefetched (setPrefetched (CacheEntry_new 0x400 False 10 5 1) True)"
    by (simp add: setPrefetched_def)
  let ?pf = "\<lparr>prefK = 1, prefC = 6, prefB = 5, prefS = 1, evictions = []\<rparr>"
  let ?cache = "[\<lparr>ways = 2, setC = 6, setB = 5, setS = 1, entries = []\<rparr>]"
  let ?cache' = "[\<lparr>ways = 2, setC = 6, setB = 5, setS = 1,
            entries = [CacheEntry_new 0x40 False 6 5 1]\<rparr>]"
  have h5: "prefetch ?pf ?cache (CacheEntry_new 0x20 True 6 5 1) = Inr (?pf, ?cache')"
    by (simp add: pf_defs eval_defs)
  note inst = stored_lines_are_never_prefetched
    [OF h1 h2 h3 h4, of "CacheEntry_blank" ?pf ?cache "CacheEntry_new 0x20 True 6 5 1"]
  from inst h5 have "\<forall>j < length ?cache. \<forall>x \<in> set (entries (?cache' ! j)).
               x \<in> set (entries (?cache ! j)) \<or> \<not> prefetched x"
    by blast
  then have "\<forall>x \<in> set (entries (?cache' ! 0)).
               x \<in> set (entries (?cache ! 0)) \<or> \<not> prefetched x"
    by (rule allE [of _ 0]) simp
  then have h6: "list_all (\<lambda>x. \<not> prefetched x) [CacheEntry_new 0x40 False 6 5 1]"
    by simp
  from inst h1 h2 h3 h4 h5 h6 p show ?thesis
    by simp
qed



subsection \<open>Prefetching\<close>

text \<open>
  Claim C4: \<^verbatim>\<open>prefetch(trigger_line)\<close> clears the eviction buffer, then for \<open>i = 1..K\<close>
  builds a candidate line with block address \<open>trigger_line.block_address + i\<close>, clean and
  marked prefetched, and inserts it at the MRU position via \<^verbatim>\<open>inserMru\<close> unless its set
  already contains its tag; afterwards the buffer holds exactly the evictions of this
  call, no set contains a duplicate tag, and no prefetched line is dirty.

  The source calls \<^verbatim>\<open>insertLru\<close>, not \<^verbatim>\<open>inserMru\<close>: its comment says the blocks are
  ``fetched into the cache LRU values''.  With one line in a two-way set, the prefetched
  line ends up behind the resident line, where \<^verbatim>\<open>inserMru\<close> would have put it in front.
\<close>

theorem prefetch_does_not_insert_at_mru:
  "prefetch \<lparr>prefK = 1, prefC = 6, prefB = 5, prefS = 1, evictions = []\<rparr>
     [\<lparr>ways = 2, setC = 6, setB = 5, setS = 1, entries = [CacheEntry_new 0x80 True 6 5 1]\<rparr>]
     (CacheEntry_new 0x20 True 6 5 1)
   = Inr (\<lparr>prefK = 1, prefC = 6, prefB = 5, prefS = 1, evictions = []\<rparr>,
          [\<lparr>ways = 2, setC = 6, setB = 5, setS = 1,
            entries = [CacheEntry_new 0x80 True 6 5 1, CacheEntry_new 0x40 False 6 5 1]\<rparr>]) \<and>
   inserMru \<lparr>ways = 2, setC = 6, setB = 5, setS = 1, entries = [CacheEntry_new 0x80 True 6 5 1]\<rparr>
     (candidate (CacheEntry_new 0x20 True 6 5 1) 1 1)
   = Inr (CacheEntry_blank,
          \<lparr>ways = 2, setC = 6, setB = 5, setS = 1,
            entries = [CacheEntry_new 0x40 False 6 5 1, CacheEntry_new 0x80 True 6 5 1]\<rparr>)"
  by (simp add: pf_defs eval_defs candidate_def)

text \<open>
  Claim C4 as amended: \<^verbatim>\<open>prefetch\<close> does what \<open>prefetch_spec\<close> says.  It starts from an
  empty buffer; the \<open>i\<close>-th candidate has the block address of the trigger line plus \<open>i\<close>
  (cut to the \<open>64 - b\<close> bits a block address has), is clean and marked prefetched; a
  candidate whose tag is not in the set its index selects is inserted by \<^verbatim>\<open>insertLru\<close>,
  that is appended at the tail, after the old tail was removed and returned when the set
  was full.  When the call returns, the vector has its old length, every set whose tags
  were distinct still has distinct tags, and every line that was not in its set before
  is clean.
\<close>

theorem prefetch_inserts_at_lru_position:
  "prefetch pf cache startEntry = prefetch_spec pf cache startEntry \<and>
   prefetch (pf\<lparr>evictions := old\<rparr>) cache startEntry = prefetch pf cache startEntry \<and>
   (\<forall>ba. getBlockAddress startEntry = Inr ba \<longrightarrow>
      getBlockAddress (candidate startEntry ba i)
        = Inr (take_bit (64 - unat (entB startEntry)) (ba + of_nat i)) \<and>
      \<not> dirty (candidate startEntry ba i) \<and> prefetched (candidate startEntry ba i)) \<and>
   (length (entries st) < unat (ways st) \<longrightarrow>
      insertLru st e = Inr (CacheEntry_blank,
                            st\<lparr>entries := entries st @ [CacheEntry_copy e]\<rparr>)) \<and>
   (\<not> length (entries st) < unat (ways st) \<and> entries st \<noteq> [] \<longrightarrow>
      insertLru st e = Inr (CacheEntry_copy (last (entries st)),
                            st\<lparr>entries := butlast (entries st) @ [CacheEntry_copy e]\<rparr>)) \<and>
   (\<forall>pf' cache'. prefetch pf cache startEntry = Inr (pf', cache') \<longrightarrow>
      length cache' = length cache \<and>
      (\<forall>j < length cache.
         (distinct (map getTag (entries (cache ! j)))
            \<longrightarrow> distinct (map getTag (entries (cache' ! j)))) \<and>
         (\<forall>x \<in> set (entries (cache' ! j)). x \<in> set (entries (cache ! j)) \<or> \<not> dirty x)))"
proof -
  have post: "length cache' = length cache \<and>
      (\<forall>j < length cache.
         (distinct (map getTag (entries (cache ! j)))
            \<longrightarrow> distinct (map getTag (entries (cache' ! j)))) \<and>
         (\<forall>x \<in> set (entries (cache' ! j)). x \<in> set (entries (cache ! j)) \<or> \<not> dirty x))"
    if "prefetch pf cache startEntry = Inr (pf', cache')" for pf' cache'
    using prefetch_post [OF that] unfolding steps_post_def by blast
  have cand: "getBlockAddress (candidate startEntry ba i)
        = Inr (take_bit (64 - unat (entB startEntry)) (ba + of_nat i))"
    if "getBlockAddress startEntry = Inr ba" for ba
    using getBlockAddress_defined [OF that] candidate_blockAddress by simp
  show ?thesis
    using post cand insertLru_under [of st e] insertLru_full [of st e]
    by (simp add: prefetch_refines [symmetric] prefetch_clears_buffer candidate_def)
qed



theorem prefetch_inserts_at_lru_position_witness:
  "getBlockAddress (CacheEntry_new 0x60 True 7 5 1) = Inr 3 \<and>
   getBlockAddress (candidate (CacheEntry_new 0x60 True 7 5 1) 3 1) = Inr 4 \<and>
   prefetch \<lparr>prefK = 2, prefC = 7, prefB = 5, prefS = 1,
             evictions = [CacheEntry_new 0xF00 True 7 5 1]\<rparr>
     [\<lparr>ways = 2, setC = 7, setB = 5, setS = 1, entries = [CacheEntry_new 0x100 True 7 5 1]\<rparr>,
      \<lparr>ways = 2, setC = 7, setB = 5, setS = 1, entries = []\<rparr>]
     (CacheEntry_new 0x60 True 7 5 1)
   = Inr (\<lparr>prefK = 2, prefC = 7, prefB = 5, prefS = 1, evictions = []\<rparr>,
          [\<lparr>ways = 2, setC = 7, setB = 5, setS = 1,
            entries = [CacheEntry_new 0x100 True 7 5 1, CacheEntry_new 0x80 False 7 5 1]\<rparr>,
           \<lparr>ways = 2, setC = 7, setB = 5, setS = 1,
            entries = [CacheEntry_new 0xA0 False 7 5 1]\<rparr>]) \<and>
   distinct (map getTag [CacheEntry_new 0x100 True 7 5 1]) \<and>
   distinct (map getTag [CacheEntry_new 0x100 True 7 5 1, CacheEntry_new 0x80 False 7 5 1]) \<and>
   insertLru \<lparr>ways = 2, setC = 7, setB = 5, setS = 1,
       entries = [CacheEntry_new 0x100 True 7 5 1, CacheEntry_new 0x80 False 7 5 1]\<rparr>
     (CacheEntry_new 0xC0 False 7 5 1)
   = Inr (CacheEntry_new 0x80 False 7 5 1,
          \<lparr>ways = 2, setC = 7, setB = 5, setS = 1,
            entries = [CacheEntry_new 0x100 True 7 5 1, CacheEntry_new 0xC0 False 7 5 1]\<rparr>) \<and>
   insertLru \<lparr>ways = 2, setC = 7, setB = 5, setS = 1, entries = [CacheEntry_new 0x100 True 7 5 1]\<rparr>
     (CacheEntry_new 0xC0 False 7 5 1)
   = Inr (CacheEntry_blank,
          \<lparr>ways = 2, setC = 7, setB = 5, setS = 1,
            entries = [CacheEntry_new 0x100 True 7 5 1, CacheEntry_new 0xC0 False 7 5 1]\<rparr>)"
proof -
  let ?start = "CacheEntry_new 0x60 True 7 5 1"
  let ?pf = "\<lparr>prefK = 2, prefC = 7, prefB = 5, prefS = 1,
             evictions = [CacheEntry_new 0xF00 True 7 5 1]\<rparr>"
  let ?cache = "[\<lparr>ways = 2, setC = 7, setB = 5, setS = 1, entries = [CacheEntry_new 0x100 True 7 5 1]\<rparr>,
      \<lparr>ways = 2, setC = 7, setB = 5, setS = 1, entries = []\<rparr>]"
  let ?full = "\<lparr>ways = 2, setC = 7, setB = 5, setS = 1,
       entries = [CacheEntry_new 0x100 True 7 5 1, CacheEntry_new 0x80 False 7 5 1]\<rparr>"
  let ?pf' = "\<lparr>prefK = 2, prefC = 7, prefB = 5, prefS = 1, evictions = []\<rparr>"
  let ?cache' = "[?full,
           \<lparr>ways = 2, setC = 7, setB = 5, setS = 1,
            entries = [CacheEntry_new 0xA0 False 7 5 1]\<rparr>]"
  have ba: "getBlockAddress ?start = Inr 3"
    by (simp add: pf_defs eval_defs)
  have run: "prefetch ?pf ?cache ?start = Inr (?pf', ?cache')"
    by (simp add: pf_defs eval_defs prefetch_loop_2)
  have d0: "distinct (map getTag (entries (?cache ! 0)))" by simp
  note inst = prefetch_inserts_at_lru_position
    [of ?pf ?cache ?start "[]" 1 ?full "CacheEntry_new 0xC0 False 7 5 1"]
  from inst ba have c: "getBlockAddress (candidate ?start 3 1) = Inr 4"
    by (simp add: CacheEntry_new_def)
  from inst run have "\<forall>j < length ?cache. distinct (map getTag (entries (?cache ! j)))
            \<longrightarrow> distinct (map getTag (entries (?cache' ! j)))"
    by blast
  then have "distinct (map getTag (entries (?cache ! 0)))
            \<longrightarrow> distinct (map getTag (entries (?cache' ! 0)))"
    by (rule allE [of _ 0]) simp
  with d0 have d1: "distinct (map getTag (entries (?cache' ! 0)))" by blast
  from inst have "\<not> length (entries ?full) < unat (ways ?full) \<and> entries ?full \<noteq> [] \<longrightarrow>
      insertLru ?full (CacheEntry_new 0xC0 False 7 5 1)
        = Inr (CacheEntry_copy (last (entries ?full)),
               ?full\<lparr>entries := butlast (entries ?full)
                                  @ [CacheEntry_copy (CacheEntry_new 0xC0 False 7 5 1)]\<rparr>)"
    by blast
  then have ins: "insertLru ?full (CacheEntry_new 0xC0 False 7 5 1)
   = Inr (CacheEntry_new 0x80 False 7 5 1,
          \<lparr>ways = 2, setC = 7, setB = 5, setS = 1,
            entries = [CacheEntry_new 0x100 True 7 5 1, CacheEntry_new 0xC0 False 7 5 1]\<rparr>)"
    by (simp add: CacheEntry_copy_def CacheEntry_new_def)
  let ?one = "\<lparr>ways = 2, setC = 7, setB = 5, setS = 1, entries = [CacheEntry_new 0x100 True 7 5 1]\<rparr>"
  from prefetch_inserts_at_lru_position
    [of ?pf ?cache ?start "[]" 1 ?one "CacheEntry_new 0xC0 False 7 5 1"]
  have "length (entries ?one) < unat (ways ?one) \<longrightarrow>
      insertLru ?one (CacheEntry_new 0xC0 False 7 5 1)
        = Inr (CacheEntry_blank,
               ?one\<lparr>entries := entries ?one @ [CacheEntry_copy (CacheEntry_new 0xC0 False 7 5 1)]\<rparr>)"
    by blast
  then have ins1: "insertLru ?one (CacheEntry_new 0xC0 False 7 5 1)
   = Inr (CacheEntry_blank,
          \<lparr>ways = 2, setC = 7, setB = 5, setS = 1,
            entries = [CacheEntry_new 0x100 True 7 5 1, CacheEntry_new 0xC0 False 7 5 1]\<rparr>)"
    by (simp add: CacheEntry_copy_def CacheEntry_new_def)
  from ba c run d0 d1 ins ins1 show ?thesis by simp
qed

end
